theory Spec2Isabelle
  imports Main
begin

section \<open>C values\<close>

text \<open>
  The program is one C file, \<^verbatim>\<open>src/main.c\<close>. Its values are modelled as follows.
  \<^item> A C \<^verbatim>\<open>int\<close> is an \<open>int\<close>. The counters \<^verbatim>\<open>p\<close> and \<^verbatim>\<open>n\<close> of the two scanners
    start at 0 or 1 for every segment and grow by at most one per symbol read, so this
    is exact for every segment of fewer than \<open>2^31 - 1\<close> symbols.
  \<^item> A byte of the input, and a \<^verbatim>\<open>char\<close> object in memory, is a \<open>char\<close> (HOL's
    characters are exactly the 256 bytes). \<^verbatim>\<open>fgetc\<close> returns a byte as its unsigned
    value \<open>of_char\<close>; reading a \<^verbatim>\<open>char\<close> object gives its signed value
    (\<open>char_to_int\<close>: plain \<^verbatim>\<open>char\<close> is signed and 8 bits wide, as on x86-64), and
    storing an \<^verbatim>\<open>int\<close> into a \<^verbatim>\<open>char\<close> keeps its low 8 bits (\<open>int_to_char\<close>).
  \<^item> A \<^verbatim>\<open>FILE*\<close> open for reading is the list of bytes still to be read.
  \<^item> An access outside an allocated array, and a remainder by zero, have no defined
    result in C: the functions that can reach one return \<open>None\<close> there.
\<close>

definition EOF :: int where
  "EOF = - 1"

definition HEADER_PREFIX :: int where
  "HEADER_PREFIX = 62"

definition NEWLINE :: int where
  "NEWLINE = 10"

definition BASE_N :: int where
  "BASE_N = 78"

definition char_to_int :: "char \<Rightarrow> int" where
  "char_to_int x = (if (of_char x :: int) < 128 then of_char x else of_char x - 256)"

definition int_to_char :: "int \<Rightarrow> char" where
  "int_to_char c = char_of c"

text \<open>The operator \<^verbatim>\<open>%\<close> of C99: the quotient is truncated towards zero, so the
  remainder has the sign of the dividend.\<close>

definition c_rem :: "int \<Rightarrow> int \<Rightarrow> int" where
  "c_rem a b = sgn a * (\<bar>a\<bar> mod \<bar>b\<bar>)"

text \<open>A C string stops at its first NUL byte: what \<^verbatim>\<open>%s\<close> prints of a buffer.\<close>

definition c_string :: "char list \<Rightarrow> string" where
  "c_string buf = takeWhile (\<lambda>x. x \<noteq> CHR 0x00) buf"

fun fgetc :: "string \<Rightarrow> int \<times> string" where
  "fgetc [] = (EOF, [])"
| "fgetc (x # fp) = (of_char x, fp)"

section \<open>Output\<close>

text \<open>
  One value per \<^verbatim>\<open>printf\<close> on standard output, with the arguments of the format in
  their order: \<open>Entry\<close> is \<^verbatim>\<open>"%s\t%i\t%i\tunit=%s\n"\<close> of \<^verbatim>\<open>print_entry\<close>,
  \<open>Repeat_length\<close> is \<^verbatim>\<open>"#repeat_length: %i\n"\<close>, \<open>Total_length\<close> is
  \<^verbatim>\<open>"#total_length: %i\n"\<close>, and \<open>Header_error\<close> is the message of \<^verbatim>\<open>parse_header\<close>.
\<close>

datatype line =
    Entry string int int string
  | Repeat_length int
  | Total_length int
  | Header_error

text \<open>\<^verbatim>\<open>void print_entry(char* chr, int p, char n, char* unit)\<close>: the run length
  arrives in a parameter of type \<^verbatim>\<open>char\<close>.\<close>

definition print_entry :: "char list \<Rightarrow> int \<Rightarrow> int \<Rightarrow> char list \<Rightarrow> line" where
  "print_entry chr p n unit =
     (let n' = char_to_int (int_to_char n)
      in Entry (c_string chr) (p - n') p (c_string unit))"

section \<open>Simple ring buffer\<close>

record ring =
  ring_size :: int
  elements :: "char list"

text \<open>\<^verbatim>\<open>malloc\<close> returns memory whose contents are not determined: \<open>mem\<close> gives them.
  A request of no bytes, or of a negative number converted to \<^verbatim>\<open>size_t\<close>, gives no
  storage that may be accessed.\<close>

definition malloc :: "int \<Rightarrow> (nat \<Rightarrow> char) \<Rightarrow> char list" where
  "malloc k mem = map mem [0..<nat k]"

definition init_ring :: "int \<Rightarrow> (nat \<Rightarrow> char) \<Rightarrow> ring" where
  "init_ring sz mem = \<lparr>ring_size = sz, elements = malloc sz mem\<rparr>"

definition write_ring :: "ring \<Rightarrow> int \<Rightarrow> int \<Rightarrow> ring option" where
  "write_ring rg i c =
     (if ring_size rg = 0 then None
      else
        let k = c_rem i (ring_size rg)
        in if 0 \<le> k \<and> nat k < length (elements rg)
           then Some (rg\<lparr>elements := (elements rg)[nat k := int_to_char c]\<rparr>)
           else None)"

definition read_ring :: "ring \<Rightarrow> int \<Rightarrow> int option" where
  "read_ring rg i =
     (if ring_size rg = 0 then None
      else
        let k = c_rem i (ring_size rg)
        in if 0 \<le> k \<and> nat k < length (elements rg)
           then Some (char_to_int (elements rg ! nat k))
           else None)"

section \<open>The state of the polynucleotide repeat scanning loop\<close>

text \<open>
  The field \<^verbatim>\<open>invalid_repeat\<close> is a pointer to one of three functions: \<open>repeat_fn\<close>
  names them and \<open>call_invalid_repeat\<close> is the call through the pointer. The field
  \<^verbatim>\<open>chr\<close> points to the label buffer of \<^verbatim>\<open>read_fasta\<close>: the model copies the label
  into the state whenever \<^verbatim>\<open>parse_header\<close> has written that buffer.
\<close>

datatype repeat_fn = Invalid_repeat2 | Invalid_repeat3 | Invalid_repeat4

record seq_state =
  last_bases :: ring
  length_s :: int
  invalid_repeat :: repeat_fn
  chr :: "char list"
  unit_buffer :: "char list"

text \<open>The three validators read the array \<^verbatim>\<open>lb\<close> of the ring directly, at constant
  indices. Each returns the \<^verbatim>\<open>int\<close> 1 or 0 of C's \<^verbatim>\<open>==\<close> and \<^verbatim>\<open>&&\<close>.\<close>

definition invalid_repeat2 :: "seq_state \<Rightarrow> int option" where
  "invalid_repeat2 st =
     (let lb = elements (last_bases st)
      in if length lb < 2 then None
         else Some (if lb ! 0 = lb ! 1 then 1 else 0))"

definition invalid_repeat3 :: "seq_state \<Rightarrow> int option" where
  "invalid_repeat3 st =
     (let lb = elements (last_bases st)
      in if length lb < 3 then None
         else Some (if lb ! 0 = lb ! 1 \<and> lb ! 1 = lb ! 2 then 1 else 0))"

definition invalid_repeat4 :: "seq_state \<Rightarrow> int option" where
  "invalid_repeat4 st =
     (let lb = elements (last_bases st)
      in if length lb < 4 then None
         else Some (if lb ! 0 = lb ! 2 \<and> lb ! 1 = lb ! 3 then 1 else 0))"

definition call_invalid_repeat :: "seq_state \<Rightarrow> int option" where
  "call_invalid_repeat st =
     (case invalid_repeat st of
        Invalid_repeat2 \<Rightarrow> invalid_repeat2 st
      | Invalid_repeat3 \<Rightarrow> invalid_repeat3 st
      | Invalid_repeat4 \<Rightarrow> invalid_repeat4 st)"

section \<open>Scan chromosome for polynucleotide repeats\<close>

text \<open>The loop \<^verbatim>\<open>for (j = 0; j < r; j++)\<close> of \<^verbatim>\<open>print_entryN\<close>, from \<open>j\<close> on.\<close>

function copy_unit :: "ring \<Rightarrow> int \<Rightarrow> int \<Rightarrow> int \<Rightarrow> char list \<Rightarrow> char list option" where
  "copy_unit rg off r j ub =
     (if j < r then
        (case read_ring rg (j + off) of
           None \<Rightarrow> None
         | Some c \<Rightarrow>
             if 0 \<le> j \<and> nat j < length ub
             then copy_unit rg off r (j + 1) (ub[nat j := int_to_char c])
             else None)
      else Some ub)"
  by pat_completeness auto
termination
  by (relation "measure (\<lambda>(rg, off, r, j, ub). nat (r - j))") auto

declare copy_unit.simps [simp del]

definition print_entryN :: "seq_state \<Rightarrow> int \<Rightarrow> int \<Rightarrow> (seq_state \<times> line list) option" where
  "print_entryN st p n =
     (if n \<ge> length_s st then
        (let r = ring_size (last_bases st)
         in if r = 0 then None
            else
              (let off = c_rem (p - n) r
               in case copy_unit (last_bases st) off r 0 (unit_buffer st) of
                    None \<Rightarrow> None
                  | Some ub \<Rightarrow> Some (st\<lparr>unit_buffer := ub\<rparr>, [print_entry (chr st) p n ub])))
      else Some (st, []))"

definition next_n :: "seq_state \<Rightarrow> int \<Rightarrow> int \<Rightarrow> (seq_state \<times> int) option" where
  "next_n st p c =
     (case write_ring (last_bases st) p c of
        None \<Rightarrow> None
      | Some rg \<Rightarrow>
          (let st' = st\<lparr>last_bases := rg\<rparr>
           in case call_invalid_repeat st' of
                None \<Rightarrow> None
              | Some v \<Rightarrow> Some (st', ring_size (last_bases st') - v)))"

text \<open>
  The innermost \<^verbatim>\<open>else\<close> block of the loop of \<^verbatim>\<open>scan_seqN\<close> (the three branches on
  \<^verbatim>\<open>n < q\<close>, \<^verbatim>\<open>n > q\<close> and \<^verbatim>\<open>n == q\<close>): what the scanner does with a symbol \<open>c\<close> that
  is no newline, no \<^verbatim>\<open>N\<close>, no header prefix and not the end of the file. It returns the
  new state, the new \<open>n\<close> and what it printed.
\<close>

definition scan_base :: "seq_state \<Rightarrow> int \<Rightarrow> int \<Rightarrow> int \<Rightarrow> (seq_state \<times> int \<times> line list) option" where
  "scan_base st p n c =
     (let q = ring_size (last_bases st) - 1
      in if n < q then
           (case write_ring (last_bases st) p c of
              None \<Rightarrow> None
            | Some rg \<Rightarrow> Some (st\<lparr>last_bases := rg\<rparr>, n + 1, []))
         else if n > q then
           (case read_ring (last_bases st) p of
              None \<Rightarrow> None
            | Some c0 \<Rightarrow>
                if c0 = c then Some (st, n + 1, [])
                else
                  (case print_entryN st p n of
                     None \<Rightarrow> None
                   | Some (st1, out) \<Rightarrow>
                       (case next_n st1 p c of
                          None \<Rightarrow> None
                        | Some (st2, n') \<Rightarrow> Some (st2, n', out))))
         else
           (case next_n st p c of
              None \<Rightarrow> None
            | Some (st', n') \<Rightarrow> Some (st', n', [])))"

text \<open>
  \<^verbatim>\<open>scan_seqN\<close>, from any point of its loop: \<open>fp\<close> is what is left to read, \<open>p\<close> and
  \<open>n\<close> are the loop's variables (0 and 0 at the call). The first equation is
  \<^verbatim>\<open>fgetc\<close> returning \<^verbatim>\<open>EOF\<close>. The result is what is left of the file after the
  \<^verbatim>\<open>break\<close>, the final state and the lines printed.
\<close>

fun scan_seqN :: "string \<Rightarrow> seq_state \<Rightarrow> int \<Rightarrow> int \<Rightarrow> (string \<times> seq_state \<times> line list) option" where
  "scan_seqN [] st p n =
     (case print_entryN st p n of
        None \<Rightarrow> None
      | Some (st', out) \<Rightarrow> Some ([], st', out))"
| "scan_seqN (x # fp) st p n =
     (let c = of_char x
      in if c \<noteq> NEWLINE then
           if c = BASE_N then
             (case print_entryN st p n of
                None \<Rightarrow> None
              | Some (st', out) \<Rightarrow>
                  (case scan_seqN fp st' (p + 1) 0 of
                     None \<Rightarrow> None
                   | Some (fp', st'', out') \<Rightarrow> Some (fp', st'', out @ out')))
           else if c = EOF \<or> c = HEADER_PREFIX then
             (case print_entryN st p n of
                None \<Rightarrow> None
              | Some (st', out) \<Rightarrow> Some (fp, st', out))
           else
             (case scan_base st p n c of
                None \<Rightarrow> None
              | Some (st', n', out) \<Rightarrow>
                  (case scan_seqN fp st' (p + 1) n' of
                     None \<Rightarrow> None
                   | Some (fp', st'', out') \<Rightarrow> Some (fp', st'', out @ out')))
         else scan_seqN fp st p n)"

text \<open>
  \<^verbatim>\<open>init_seq_state\<close>. The two buffers are fresh memory (\<open>mem 0\<close> and \<open>mem 1\<close> give
  their contents). The write \<^verbatim>\<open>st->unit_buffer[rep] = '\0'\<close> comes before the test of
  \<^verbatim>\<open>rep\<close>. A call ends either with a state or with the messages written to the error
  stream and the way the process ends.
\<close>

datatype msg =
    Msg_less_than_total
  | Msg_in_1_4
  | Msg_opening_file
  | Msg_invalid_r
  | Msg_polynuc int int
  | Msg_homopolymers int
  | Msg_parsing string

datatype ending = Returned int | Exited int | Undefined_behaviour | Never_returns

definition init_seq_state ::
    "char list \<Rightarrow> int \<Rightarrow> int \<Rightarrow> (nat \<Rightarrow> nat \<Rightarrow> char) \<Rightarrow> (msg list \<times> ending) + seq_state" where
  "init_seq_state chr0 rep len mem =
     (let rg = init_ring rep (mem 0);
          ub = malloc (rep + 1) (mem 1)
      in if \<not> (0 \<le> rep \<and> nat rep < length ub) then Inl ([], Undefined_behaviour)
         else
           (let st = \<lparr>last_bases = rg, length_s = len, invalid_repeat = Invalid_repeat2,
                      chr = chr0, unit_buffer = ub[nat rep := CHR 0x00]\<rparr>
            in if rep = 2 then Inr (st\<lparr>invalid_repeat := Invalid_repeat2\<rparr>)
               else if rep = 3 then Inr (st\<lparr>invalid_repeat := Invalid_repeat3\<rparr>)
               else if rep = 4 then Inr (st\<lparr>invalid_repeat := Invalid_repeat4\<rparr>)
               else Inl ([Msg_invalid_r], Exited (- 1))))"

section \<open>Scan chromosome for homopolymers\<close>

text \<open>
  \<^verbatim>\<open>scan_seq1\<close>, from any point of its loop. The test \<^verbatim>\<open>c == last_base[0]\<close> comes
  before the test of \<^verbatim>\<open>EOF\<close>, so the loop is not bounded by the length of the file:
  the first argument bounds the number of calls of \<^verbatim>\<open>fgetc\<close>, and the second
  component of the result is \<open>None\<close> when the bound is reached before the loop ends and
  what is left of the file otherwise. The first component is what has been printed.
  At the call \<open>last_base = CHR ''N''\<close>, \<open>p = 0\<close> and \<open>n = 1\<close>.
\<close>

fun scan_seq1 ::
    "nat \<Rightarrow> string \<Rightarrow> char list \<Rightarrow> int \<Rightarrow> char \<Rightarrow> int \<Rightarrow> int \<Rightarrow> line list \<times> string option" where
  "scan_seq1 0 fp chr0 len last_base p n = ([], None)"
| "scan_seq1 (Suc k) fp chr0 len last_base p n =
     (case fgetc fp of
        (c, fp') \<Rightarrow>
          if c \<noteq> NEWLINE then
            if c = char_to_int last_base then scan_seq1 k fp' chr0 len last_base (p + 1) (n + 1)
            else
              (let out = (if n \<ge> len \<and> last_base \<noteq> CHR ''N''
                          then [print_entry chr0 p n [last_base, CHR 0x00]] else [])
               in if c = EOF \<or> c = HEADER_PREFIX then (out, Some fp')
                  else
                    (case scan_seq1 k fp' chr0 len (int_to_char c) (p + 1) 1 of
                       (out', r) \<Rightarrow> (out @ out', r)))
          else scan_seq1 k fp' chr0 len last_base p n)"

section \<open>FASTA parser\<close>

fun seek_char :: "string \<Rightarrow> char \<Rightarrow> int \<times> string" where
  "seek_char [] t = (EOF, [])"
| "seek_char (x # fp) t =
     (if EOF \<noteq> of_char x \<and> char_to_int t \<noteq> of_char x then seek_char fp t
      else (of_char x, fp))"

text \<open>\<^verbatim>\<open>fscanf(fp, "%31s", chr)\<close>: white space is skipped, then at most 31 bytes that
  are not white space are stored, with a NUL after them. The result is \<^verbatim>\<open>EOF\<close>, with
  the buffer as it was, when the file ends before a byte is stored, and 1 otherwise.\<close>

definition isspace :: "char \<Rightarrow> bool" where
  "isspace x \<longleftrightarrow> (of_char x :: int) \<in> {32, 9, 10, 11, 12, 13}"

definition fscanf_s31 :: "string \<Rightarrow> char list \<Rightarrow> int \<times> string \<times> char list" where
  "fscanf_s31 fp chr0 =
     (let fp1 = dropWhile isspace fp
      in if fp1 = [] then (EOF, fp1, chr0)
         else
           (let tok = take 31 (takeWhile (\<lambda>x. \<not> isspace x) fp1)
            in (1, drop (length tok) fp1, tok @ [CHR 0x00])))"

text \<open>\<^verbatim>\<open>parse_header\<close>: \<open>Inl\<close> is its \<^verbatim>\<open>exit(-1)\<close>, after the message on standard
  output.\<close>

definition parse_header :: "string \<Rightarrow> char list \<Rightarrow> unit + (int \<times> string \<times> char list)" where
  "parse_header fp chr0 =
     (case fscanf_s31 fp chr0 of
        (c, fp1, chr1) \<Rightarrow>
          if c \<noteq> 1 \<and> c \<noteq> EOF then Inl ()
          else (case seek_char fp1 CHR 0x0A of (c', fp2) \<Rightarrow> Inr (c', fp2, chr1)))"

text \<open>No function reads backwards: what is left of the file never grows. This is what
  makes the loop of \<^verbatim>\<open>read_fasta\<close> end.\<close>

lemma seek_char_length:
  "seek_char fp t = (c, fp') \<Longrightarrow> length fp' \<le> length fp \<and> (c \<noteq> EOF \<longrightarrow> length fp' < length fp)"
  by (induction fp) (auto split: if_splits)

lemma fscanf_s31_length:
  "fscanf_s31 fp chr0 = (c, fp1, chr1) \<Longrightarrow> length fp1 \<le> length fp"
proof -
  have "length (dropWhile isspace fp) \<le> length fp"
    by (rule length_dropWhile_le)
  then show "fscanf_s31 fp chr0 = (c, fp1, chr1) \<Longrightarrow> length fp1 \<le> length fp"
    by (auto simp: fscanf_s31_def Let_def split: if_splits)
qed

lemma parse_header_length:
  assumes "parse_header fp chr0 = Inr (c, fp2, chr1)" and "c \<noteq> EOF"
  shows "length fp2 < length fp"
proof -
  obtain d fp1 chr' where f: "fscanf_s31 fp chr0 = (d, fp1, chr')"
    by (cases "fscanf_s31 fp chr0") auto
  obtain c' fp' where s: "seek_char fp1 CHR 0x0A = (c', fp')"
    by (cases "seek_char fp1 CHR 0x0A") auto
  from assms(1) f s have "c' = c" and "fp' = fp2"
    by (auto simp: parse_header_def split: if_splits)
  with s assms(2) seek_char_length [of fp1 "CHR 0x0A" c fp2] have "length fp2 < length fp1"
    by simp
  with fscanf_s31_length [OF f] show ?thesis
    by simp
qed

lemma scan_seqN_length:
  "scan_seqN fp st p n = Some (fp', st', out) \<Longrightarrow> length fp' \<le> length fp"
proof (induction fp arbitrary: st p n st' out)
  case Nil
  then show ?case
    by (auto split: option.splits)
next
  case (Cons x fp)
  then show ?case
    by (fastforce simp: Let_def split: if_splits option.splits)
qed

lemma scan_seq1_length:
  "scan_seq1 k fp chr0 len lb p n = (out, Some fp') \<Longrightarrow> length fp' \<le> length fp"
proof (induction k arbitrary: fp lb p n out)
  case 0
  then show ?case
    by simp
next
  case (Suc k)
  show ?case
  proof (cases fp)
    case Nil
    with Suc.prems Suc.IH [of "[]"] show ?thesis
      by (auto simp: Let_def split: if_splits prod.splits)
  next
    case (Cons x fp0)
    with Suc.prems Suc.IH [of fp0] show ?thesis
      by (fastforce simp: Let_def split: if_splits prod.splits)
  qed
qed

text \<open>
  What a run of the program shows: the lines on standard output, the messages on the
  error stream, how it ends, and what is left unread of the input file.
\<close>

record outcome =
  stdout :: "line list"
  stderr :: "msg list"
  ending :: ending
  unread :: string

definition printed :: "line list \<Rightarrow> msg list \<Rightarrow> outcome \<Rightarrow> outcome" where
  "printed out err oc = oc\<lparr>stdout := out @ stdout oc, stderr := err @ stderr oc\<rparr>"

lemma parse_loop_term1:
  assumes "parse_header fp chr0 = Inr (c, fp1, chr1)" and "c \<noteq> EOF"
    and "(out, Some fp2) = scan_seq1 k fp1 chr1 len lb p n"
  shows "length fp2 < length fp"
  using parse_header_length [OF assms(1,2)] scan_seq1_length [OF assms(3) [symmetric]]
  by simp

lemma parse_loop_term2:
  assumes "parse_header fp chr0 = Inr (c, fp1, chr1)" and "c \<noteq> EOF"
    and "scan_seqN fp1 st p n = Some (fp2, st', out)"
  shows "length fp2 < length fp"
  using parse_header_length [OF assms(1,2)] scan_seqN_length [OF assms(3)]
  by simp

text \<open>
  The loop \<^verbatim>\<open>while (parse_header(fp, chr) != EOF)\<close> of \<^verbatim>\<open>read_fasta\<close>. The scanner's
  state is \<open>None\<close> when \<^verbatim>\<open>is_homopoly\<close> holds. \<^verbatim>\<open>scan_seq1\<close> is given one call of
  \<^verbatim>\<open>fgetc\<close> more than the file has bytes left.
\<close>

function parse_loop :: "string \<Rightarrow> char list \<Rightarrow> seq_state option \<Rightarrow> int \<Rightarrow> outcome" where
  "parse_loop fp chr0 sto len =
     (case parse_header fp chr0 of
        Inl u \<Rightarrow> \<lparr>stdout = [Header_error], stderr = [], ending = Exited (- 1), unread = fp\<rparr>
      | Inr (c, fp1, chr1) \<Rightarrow>
          if c \<noteq> EOF then
            printed [] [Msg_parsing (c_string chr1)]
              (case sto of
                 None \<Rightarrow>
                   (case scan_seq1 (Suc (length fp1)) fp1 chr1 len CHR ''N'' 0 1 of
                      (out, None) \<Rightarrow>
                        \<lparr>stdout = out, stderr = [], ending = Never_returns, unread = []\<rparr>
                    | (out, Some fp2) \<Rightarrow> printed out [] (parse_loop fp2 chr1 None len))
               | Some st \<Rightarrow>
                   (case scan_seqN fp1 (st\<lparr>chr := chr1\<rparr>) 0 0 of
                      None \<Rightarrow>
                        \<lparr>stdout = [], stderr = [], ending = Undefined_behaviour, unread = []\<rparr>
                    | Some (fp2, st', out) \<Rightarrow> printed out [] (parse_loop fp2 chr1 (Some st') len)))
          else \<lparr>stdout = [], stderr = [], ending = Returned 0, unread = fp1\<rparr>)"
  by pat_completeness auto
termination
  by (relation "measure (\<lambda>(fp, chr0, sto, len). length fp)")
    (auto simp del: scan_seq1.simps intro: parse_loop_term1 parse_loop_term2)

declare parse_loop.simps [simp del]

text \<open>
  \<^verbatim>\<open>read_fasta\<close>. The file argument is \<open>None\<close> when \<^verbatim>\<open>fopen\<close> returned \<^verbatim>\<open>NULL\<close>.
  \<open>mem 2\<close> gives the first contents of the label buffer \<^verbatim>\<open>chr\<close>.
\<close>

definition read_fasta :: "string option \<Rightarrow> int \<Rightarrow> int \<Rightarrow> (nat \<Rightarrow> nat \<Rightarrow> char) \<Rightarrow> outcome" where
  "read_fasta fpo rep len mem =
     (if len \<le> rep then
        \<lparr>stdout = [], stderr = [Msg_less_than_total], ending = Exited (- 1),
         unread = (case fpo of None \<Rightarrow> [] | Some fp \<Rightarrow> fp)\<rparr>
      else if 4 < rep then
        \<lparr>stdout = [], stderr = [Msg_in_1_4], ending = Exited (- 1),
         unread = (case fpo of None \<Rightarrow> [] | Some fp \<Rightarrow> fp)\<rparr>
      else
        (case fpo of
           None \<Rightarrow> \<lparr>stdout = [], stderr = [Msg_opening_file], ending = Exited (- 1), unread = []\<rparr>
         | Some fp \<Rightarrow>
             (let chr0 = malloc 32 (mem 2);
                  fp1 = snd (seek_char fp CHR ''>'');
                  is_homopoly = (rep = 1)
              in if \<not> is_homopoly then
                   (case init_seq_state chr0 rep len mem of
                      Inl (ms, e) \<Rightarrow>
                        \<lparr>stdout = [], stderr = Msg_polynuc rep len # ms, ending = e, unread = fp1\<rparr>
                    | Inr st \<Rightarrow>
                        printed [Repeat_length rep, Total_length len] [Msg_polynuc rep len]
                          (parse_loop fp1 chr0 (Some st) len))
                 else
                   printed [Repeat_length rep, Total_length len] [Msg_homopolymers len]
                     (parse_loop fp1 chr0 None len))))"

section \<open>States used as examples\<close>

text \<open>A state as \<^verbatim>\<open>init_seq_state\<close> builds it, with the ring holding \<open>lb\<close>.\<close>

definition example_state :: "int \<Rightarrow> repeat_fn \<Rightarrow> char list \<Rightarrow> int \<Rightarrow> seq_state" where
  "example_state r f lb len =
     \<lparr>last_bases = \<lparr>ring_size = r, elements = lb\<rparr>, length_s = len, invalid_repeat = f,
      chr = ''chr1'' @ [CHR 0x00], unit_buffer = replicate (nat r) CHR ''?'' @ [CHR 0x00]\<rparr>"

section \<open>Well-formed scanner states\<close>

text \<open>
  The shape \<^verbatim>\<open>init_seq_state\<close> gives a state and every function keeps: the ring has
  2, 3 or 4 slots and its size field says so, the validator is the one of that period,
  and the unit buffer has one byte more than the ring, the last one NUL.
\<close>

definition wf_state :: "seq_state \<Rightarrow> bool" where
  "wf_state st \<longleftrightarrow>
     (let r = ring_size (last_bases st)
      in int (length (elements (last_bases st))) = r
         \<and> int (length (unit_buffer st)) = r + 1
         \<and> unit_buffer st ! nat r = CHR 0x00
         \<and> (r = 2 \<and> invalid_repeat st = Invalid_repeat2
            \<or> r = 3 \<and> invalid_repeat st = Invalid_repeat3
            \<or> r = 4 \<and> invalid_repeat st = Invalid_repeat4))"

text \<open>The bytes \<^verbatim>\<open>print_entryN\<close> copies into the unit buffer: the slots of the ring
  from slot \<open>off\<close> on, cyclically.\<close>

definition ring_unit :: "ring \<Rightarrow> int \<Rightarrow> char list" where
  "ring_unit rg off =
     map (\<lambda>j. elements rg ! nat ((int j + off) mod ring_size rg)) [0..<nat (ring_size rg)]"

section \<open>Kinds of output lines\<close>

text \<open>A per-run record is a line printed by \<^verbatim>\<open>print_entry\<close>.\<close>

definition is_entry :: "line \<Rightarrow> bool" where
  "is_entry l = (case l of Entry lab s e u \<Rightarrow> True | _ \<Rightarrow> False)"

section \<open>Segments and runs\<close>

text \<open>
  The symbols of the segment that starts where the file stands: the bytes other than
  the newline, up to the next header prefix or the end of the file. Position \<open>i\<close> of
  the segment is \<open>segment fp ! i\<close>.
\<close>

definition segment :: "string \<Rightarrow> string" where
  "segment fp = takeWhile (\<lambda>x. x \<noteq> CHR ''>'') (filter (\<lambda>x. x \<noteq> CHR 0x0A) fp)"

text \<open>The \<open>m\<close> symbols before position \<open>e\<close> of \<open>seg\<close> are all \<open>s\<close>, and the symbol
  before them and the symbol after them, where the segment has one, are not \<open>s\<close>.\<close>

definition maximal_run :: "string \<Rightarrow> nat \<Rightarrow> nat \<Rightarrow> char \<Rightarrow> bool" where
  "maximal_run seg e m s \<longleftrightarrow>
     1 \<le> m \<and> m \<le> e \<and> e \<le> length seg
     \<and> (\<forall>i. e - m \<le> i \<and> i < e \<longrightarrow> seg ! i = s)
     \<and> (m < e \<longrightarrow> seg ! (e - m - 1) \<noteq> s)
     \<and> (e < length seg \<longrightarrow> seg ! e \<noteq> s)"

text \<open>
  What the loop of \<^verbatim>\<open>scan_seq1\<close> keeps true of \<^verbatim>\<open>last_base\<close> and \<^verbatim>\<open>n\<close>, where
  \<open>pre\<close> is the part of the segment read so far: \<^verbatim>\<open>last_base\<close> is the last symbol
  read, and when it is not \<^verbatim>\<open>N\<close> the last \<open>n\<close> symbols read are equal to it; a byte
  above 127 never compares equal to the next byte, so its \<open>n\<close> stays 1.
\<close>

definition seq1_inv :: "string \<Rightarrow> char \<Rightarrow> int \<Rightarrow> bool" where
  "seq1_inv pre lb n \<longleftrightarrow>
     lb \<noteq> CHR ''>'' \<and> lb \<noteq> CHR 0x0A
     \<and> (pre \<noteq> [] \<longrightarrow> last pre = lb)
     \<and> (lb \<noteq> CHR ''N'' \<longrightarrow>
          1 \<le> n \<and> nat n \<le> length pre
          \<and> (\<forall>i. i < nat n \<longrightarrow> pre ! (length pre - 1 - i) = lb)
          \<and> ((of_char lb :: int) < 128 \<longrightarrow> nat n < length pre \<longrightarrow>
                pre ! (length pre - 1 - nat n) \<noteq> lb)
          \<and> (128 \<le> (of_char lb :: int) \<longrightarrow> n = 1))"

text \<open>A line that reports a maximal run of the segment, of a symbol other than
  \<^verbatim>\<open>N\<close> and of at least \<open>len\<close> symbols: \<^verbatim>\<open>print_entry\<close> called with the end position
  \<open>e\<close>, the length \<open>m\<close> and the symbol.\<close>

definition reports_run :: "char list \<Rightarrow> int \<Rightarrow> string \<Rightarrow> line \<Rightarrow> bool" where
  "reports_run chr0 len seg l \<longleftrightarrow>
     (\<exists>e m s. l = print_entry chr0 (int e) (int m) [s, CHR 0x00]
        \<and> s \<noteq> CHR ''N'' \<and> len \<le> int m \<and> maximal_run seg e m s)"

section \<open>The loop of the period-N scanner, stopped after a prefix of the input\<close>

text \<open>
  The loop of \<^verbatim>\<open>scan_seqN\<close> run over the bytes \<open>xs\<close> and stopped there: the same
  branches as \<open>scan_seqN\<close>, except that the end of \<open>xs\<close> is not the end of the file.
  It returns the state and the loop's variables \<open>p\<close> and \<open>n\<close> at that point, and what
  has been printed so far. While \<open>xs\<close> holds no header prefix, \<open>scan_seqN\<close> on
  \<open>xs @ fp\<close> goes on from there (lemma \<open>scan_seqN_prefix\<close> below).
\<close>

fun scan_prefix ::
    "string \<Rightarrow> seq_state \<Rightarrow> int \<Rightarrow> int \<Rightarrow> (seq_state \<times> int \<times> int \<times> line list) option" where
  "scan_prefix [] st p n = Some (st, p, n, [])"
| "scan_prefix (x # xs) st p n =
     (let c = of_char x
      in if c \<noteq> NEWLINE then
           if c = BASE_N then
             (case print_entryN st p n of
                None \<Rightarrow> None
              | Some (st', out) \<Rightarrow>
                  (case scan_prefix xs st' (p + 1) 0 of
                     None \<Rightarrow> None
                   | Some (st'', p'', n'', out') \<Rightarrow> Some (st'', p'', n'', out @ out')))
           else
             (case scan_base st p n c of
                None \<Rightarrow> None
              | Some (st', n', out) \<Rightarrow>
                  (case scan_prefix xs st' (p + 1) n' of
                     None \<Rightarrow> None
                   | Some (st'', p'', n'', out') \<Rightarrow> Some (st'', p'', n'', out @ out')))
         else scan_prefix xs st p n)"

text \<open>\<open>scan_seqN\<close> after the lines \<open>out\<close> have been printed.\<close>

definition after_printing ::
    "line list \<Rightarrow> (string \<times> seq_state \<times> line list) option
      \<Rightarrow> (string \<times> seq_state \<times> line list) option" where
  "after_printing out res =
     (case res of None \<Rightarrow> None | Some (fp', st', out') \<Rightarrow> Some (fp', st', out @ out'))"

text \<open>The symbols read from \<open>xs\<close>: position \<open>i\<close> of the segment is \<open>symbols xs ! i\<close>.\<close>

definition symbols :: "string \<Rightarrow> string" where
  "symbols xs = filter (\<lambda>x. x \<noteq> CHR 0x0A) xs"

text \<open>
  The freshness of the ring after the symbols \<open>pre\<close>, with run length \<open>n\<close>: \<open>n\<close> is
  between 0 and the number of symbols read; the slot \<open>i mod period\<close> holds the symbol
  of position \<open>i\<close> for each of the last \<open>min n period\<close> positions; none of the last
  \<open>n\<close> symbols is \<^verbatim>\<open>N\<close>; and from the period-th symbol of the run on, every symbol
  of the run equals the one a period before it.
\<close>

definition fresh :: "string \<Rightarrow> seq_state \<Rightarrow> int \<Rightarrow> bool" where
  "fresh pre st n \<longleftrightarrow>
     (let r = nat (ring_size (last_bases st)); p = length pre
      in 0 \<le> n \<and> nat n \<le> p
         \<and> (\<forall>i. p - min (nat n) r \<le> i \<and> i < p \<longrightarrow> elements (last_bases st) ! (i mod r) = pre ! i)
         \<and> (\<forall>i. p - nat n \<le> i \<and> i < p \<longrightarrow> pre ! i \<noteq> CHR ''N'')
         \<and> (\<forall>i. p - nat n + r \<le> i \<and> i < p \<longrightarrow> pre ! i = pre ! (i - r)))"

text \<open>Two states of one configuration: they may differ in what their buffers hold.\<close>

definition same_config :: "seq_state \<Rightarrow> seq_state \<Rightarrow> bool" where
  "same_config st1 st2 \<longleftrightarrow>
     ring_size (last_bases st1) = ring_size (last_bases st2)
     \<and> length_s st1 = length_s st2
     \<and> invalid_repeat st1 = invalid_repeat st2
     \<and> chr st1 = chr st2"

section \<open>Degenerate units, in the words of the specification\<close>

text \<open>
  The unit validator as the specification words it, on the window \<open>w\<close> of the period
  most recent symbols, oldest first: a window of 2 symbols is degenerate when both
  are equal, one of 3 when all three are equal, one of 4 when the symbols 0 and 2 are
  equal and the symbols 1 and 3 are equal. It is compared below with the validators of
  the source, which read the raw slots of the ring.
\<close>

definition spec_degenerate :: "char list \<Rightarrow> bool" where
  "spec_degenerate w \<longleftrightarrow>
     (length w = 2 \<and> w ! 0 = w ! 1)
     \<or> (length w = 3 \<and> w ! 0 = w ! 1 \<and> w ! 1 = w ! 2)
     \<or> (length w = 4 \<and> w ! 0 = w ! 2 \<and> w ! 1 = w ! 3)"

text \<open>The window held by the ring when the last symbol was written at position \<open>p\<close>:
  the slots of the positions \<open>p + 1 - period\<close> up to \<open>p\<close>, in this order.\<close>

definition window :: "ring \<Rightarrow> int \<Rightarrow> char list" where
  "window rg p = ring_unit rg ((p + 1) mod ring_size rg)"

text \<open>The ring after \<^verbatim>\<open>write_ring\<close> of \<open>c\<close> at the position \<open>p\<close>.\<close>

definition written :: "ring \<Rightarrow> int \<Rightarrow> int \<Rightarrow> ring" where
  "written rg p c = rg\<lparr>elements := (elements rg)[nat (p mod ring_size rg) := int_to_char c]\<rparr>"

section \<open>Facts about the C values and the ring\<close>

lemma c_rem_nonneg: "0 \<le> a \<Longrightarrow> 0 < b \<Longrightarrow> c_rem a b = a mod b"
  by (cases "a = 0") (simp_all add: c_rem_def)

lemma c_rem_range: "0 \<le> a \<Longrightarrow> 0 < b \<Longrightarrow> 0 \<le> c_rem a b \<and> c_rem a b < b"
  by (simp add: c_rem_nonneg)

lemma of_char_range: "0 \<le> (of_char x :: int) \<and> (of_char x :: int) < 256"
  by (simp add: of_char_def)

lemma int_to_char_of_char: "int_to_char (of_char x) = x"
  by (simp add: int_to_char_def)

lemma int_to_char_char_to_int: "int_to_char (char_to_int x) = x"
proof (cases "(of_char x :: int) < 128")
  case True
  then show ?thesis
    by (simp add: int_to_char_def char_to_int_def)
next
  case False
  have "char_of (of_char x - 256 :: int) = char_of (of_char x :: int)"
    by (simp only: char_of_quasi_inj minus_mod_self2)
  with False show ?thesis
    by (simp only: int_to_char_def char_to_int_def if_False char_of_char)
qed

lemma char_to_int_small: "0 \<le> s \<Longrightarrow> s < 128 \<Longrightarrow> char_to_int (int_to_char s) = s"
  by (simp add: char_to_int_def int_to_char_def)

lemma char_to_int_eq_of_char:
  "char_to_int x = of_char y \<longleftrightarrow> x = y \<and> (of_char y :: int) < 128"
proof -
  have "(of_char x :: int) = of_char y \<longleftrightarrow> x = y"
    by (rule of_char_eq_iff)
  with of_char_range [of x] of_char_range [of y] show ?thesis
    by (auto simp: char_to_int_def)
qed

lemma char_to_int_inj: "char_to_int x = char_to_int y \<longleftrightarrow> x = y"
  by (metis int_to_char_char_to_int)

lemma ring_slot:
  assumes "0 < ring_size rg" and "int (length (elements rg)) = ring_size rg" and "0 \<le> i"
  shows "c_rem i (ring_size rg) = i mod ring_size rg"
    and "nat (i mod ring_size rg) < length (elements rg)"
  using assms by (simp_all add: c_rem_nonneg nat_less_iff)

lemma read_ring_slot:
  assumes "0 < ring_size rg" and "int (length (elements rg)) = ring_size rg" and "0 \<le> i"
  shows "read_ring rg i = Some (char_to_int (elements rg ! nat (i mod ring_size rg)))"
  using assms ring_slot [OF assms] by (simp add: read_ring_def)

lemma write_ring_slot:
  assumes "0 < ring_size rg" and "int (length (elements rg)) = ring_size rg" and "0 \<le> i"
  shows "write_ring rg i c =
    Some (rg\<lparr>elements := (elements rg)[nat (i mod ring_size rg) := int_to_char c]\<rparr>)"
  using assms ring_slot [OF assms] by (simp add: write_ring_def)

section \<open>The circular buffer\<close>

text \<open>
  C9. Circular buffer contract and safety. A position is a count of symbols, so it is
  not negative; the capacity is positive and is the size of the storage, as
  \<^verbatim>\<open>init_ring\<close> makes it. Then \<^verbatim>\<open>write_ring\<close> at position \<open>i\<close> succeeds, stores the
  symbol (as a \<^verbatim>\<open>char\<close>) in slot \<open>i mod capacity\<close>, which lies inside the storage,
  and changes no other slot and not the capacity; \<^verbatim>\<open>read_ring\<close> at any position of
  the same slot returns that symbol, at a position of another slot what it returned
  before the write, and never fails. A symbol below 128 is read back as itself.
\<close>

theorem ring_contract:
  assumes "0 < ring_size rg" and "int (length (elements rg)) = ring_size rg" and "0 \<le> i"
  shows "\<exists>rg'. write_ring rg i s = Some rg'
           \<and> ring_size rg' = ring_size rg
           \<and> length (elements rg') = length (elements rg)
           \<and> nat (i mod ring_size rg) < length (elements rg)
           \<and> (\<forall>k. k < length (elements rg) \<longrightarrow>
                 elements rg' ! k =
                   (if k = nat (i mod ring_size rg) then int_to_char s else elements rg ! k))
           \<and> (\<forall>j. 0 \<le> j \<longrightarrow>
                 read_ring rg' j =
                   (if j mod ring_size rg = i mod ring_size rg
                    then Some (char_to_int (int_to_char s)) else read_ring rg j))
           \<and> (0 \<le> s \<and> s < 128 \<longrightarrow> read_ring rg' i = Some s)
           \<and> (\<exists>v. read_ring rg i = Some v)"
proof -
  let ?r = "ring_size rg"
  let ?rg' = "rg\<lparr>elements := (elements rg)[nat (i mod ?r) := int_to_char s]\<rparr>"
  have w: "write_ring rg i s = Some ?rg'"
    by (rule write_ring_slot [OF assms])
  have k: "nat (i mod ?r) < length (elements rg)"
    by (rule ring_slot(2) [OF assms])
  have shape: "0 < ring_size ?rg'" "int (length (elements ?rg')) = ring_size ?rg'"
    using assms by simp_all
  have rd: "read_ring ?rg' j =
      (if j mod ?r = i mod ?r then Some (char_to_int (int_to_char s)) else read_ring rg j)"
    if j: "0 \<le> j" for j
  proof -
    have kj: "nat (j mod ?r) < length (elements rg)"
      by (rule ring_slot(2) [OF assms(1,2) j])
    have eq: "nat (i mod ?r) = nat (j mod ?r) \<longleftrightarrow> j mod ?r = i mod ?r"
      using assms(1) by (auto simp: nat_eq_iff)
    show ?thesis
      using read_ring_slot [OF shape j] read_ring_slot [OF assms(1,2) j] k kj eq
      by (simp add: nth_list_update)
  qed
  have small: "read_ring ?rg' i = Some s" if "0 \<le> s \<and> s < 128"
    using rd [OF assms(3)] that by (simp add: char_to_int_small)
  have old: "\<exists>v. read_ring rg i = Some v"
    using read_ring_slot [OF assms] by simp
  have upd: "\<forall>k. k < length (elements rg) \<longrightarrow>
      elements ?rg' ! k = (if k = nat (i mod ?r) then int_to_char s else elements rg ! k)"
    by (simp add: nth_list_update)
  from w k rd small old upd show ?thesis
    by simp
qed

theorem ring_contract_witness:
  "\<exists>rg'. write_ring \<lparr>ring_size = 4, elements = ''ACGT''\<rparr> 6 84 = Some rg'
     \<and> elements rg' = ''ACTT''
     \<and> read_ring rg' 6 = Some 84 \<and> read_ring rg' 10 = Some 84
     \<and> read_ring rg' 5 = read_ring \<lparr>ring_size = 4, elements = ''ACGT''\<rparr> 5"
proof -
  let ?rg = "\<lparr>ring_size = 4, elements = ''ACGT''\<rparr>"
  from ring_contract [of ?rg 6 84] obtain rg' where
    w: "write_ring ?rg 6 84 = Some rg'" and
    u: "\<forall>k. k < length (elements ?rg) \<longrightarrow>
          elements rg' ! k = (if k = nat (6 mod ring_size ?rg) then int_to_char 84 else elements ?rg ! k)" and
    l: "length (elements rg') = length (elements ?rg)" and
    r: "\<forall>j. 0 \<le> j \<longrightarrow> read_ring rg' j =
          (if j mod ring_size ?rg = 6 mod ring_size ?rg
           then Some (char_to_int (int_to_char 84)) else read_ring ?rg j)"
    by auto
  have e: "elements rg' = ''ACTT''"
  proof (rule nth_equalityI)
    show "length (elements rg') = length ''ACTT''"
      using l by simp
    fix k assume "k < length (elements rg')"
    with l have "k < 4" by simp
    then have "k = 0 \<or> k = 1 \<or> k = 2 \<or> k = 3" by arith
    with u show "elements rg' ! k = ''ACTT'' ! k"
      by (auto simp: int_to_char_def char_of_def)
  qed
  from r have "read_ring rg' 6 = Some 84" "read_ring rg' 10 = Some 84"
    "read_ring rg' 5 = read_ring ?rg 5"
    by (simp_all add: char_to_int_small)
  with w e show ?thesis
    by simp
qed

section \<open>The unit validators\<close>

lemma list2: "length w = 2 \<Longrightarrow> \<exists>a b. w = [a, b]"
  by (auto simp: length_Suc_conv eval_nat_numeral)

lemma list3: "length w = 3 \<Longrightarrow> \<exists>a b c. w = [a, b, c]"
  by (auto simp: length_Suc_conv eval_nat_numeral)

lemma list4: "length w = 4 \<Longrightarrow> \<exists>a b c d. w = [a, b, c, d]"
  by (auto simp: length_Suc_conv eval_nat_numeral)

lemma mod4_cases: "(m::nat) mod 4 = 0 \<or> m mod 4 = 1 \<or> m mod 4 = 2 \<or> m mod 4 = 3"
  by arith

lemma mod3_cases: "(m::nat) mod 3 = 0 \<or> m mod 3 = 1 \<or> m mod 3 = 2"
  by arith

lemma mod2_cases: "(m::nat) mod 2 = 0 \<or> m mod 2 = 1"
  by arith

lemma invalid_repeat4_slots:
  assumes lb: "elements (last_bases st) = [x0, x1, x2, x3]"
    and slots: "\<forall>j<4. [x0, x1, x2, x3] ! ((p0 + j) mod 4) = [a, b, c, d] ! j"
  shows "invalid_repeat4 st = Some (if a = c \<and> b = d then 1 else 0)"
proof -
  have e: "[x0, x1, x2, x3] ! ((p0 mod 4 + j) mod 4) = [a, b, c, d] ! j" if "j < 4" for j
    using slots that by (simp add: mod_add_left_eq)
  from mod4_cases [of p0] show ?thesis
  proof (elim disjE)
    assume "p0 mod 4 = 0"
    with e [of 0] e [of 1] e [of 2] e [of 3] have "x0 = a" "x1 = b" "x2 = c" "x3 = d"
      by simp_all
    then show ?thesis
      by (simp add: invalid_repeat4_def lb)
  next
    assume "p0 mod 4 = 1"
    with e [of 0] e [of 1] e [of 2] e [of 3] have "x1 = a" "x2 = b" "x3 = c" "x0 = d"
      by simp_all
    then show ?thesis
      by (auto simp: invalid_repeat4_def lb)
  next
    assume "p0 mod 4 = 2"
    with e [of 0] e [of 1] e [of 2] e [of 3] have "x2 = a" "x3 = b" "x0 = c" "x1 = d"
      by simp_all
    then show ?thesis
      by (auto simp: invalid_repeat4_def lb)
  next
    assume "p0 mod 4 = 3"
    with e [of 0] e [of 1] e [of 2] e [of 3] have "x3 = a" "x0 = b" "x1 = c" "x2 = d"
      by simp_all
    then show ?thesis
      by (auto simp: invalid_repeat4_def lb)
  qed
qed

lemma invalid_repeat3_slots:
  assumes lb: "elements (last_bases st) = [x0, x1, x2]"
    and slots: "\<forall>j<3. [x0, x1, x2] ! ((p0 + j) mod 3) = [a, b, c] ! j"
  shows "invalid_repeat3 st = Some (if a = b \<and> b = c then 1 else 0)"
proof -
  have e: "[x0, x1, x2] ! ((p0 mod 3 + j) mod 3) = [a, b, c] ! j" if "j < 3" for j
    using slots that by (simp add: mod_add_left_eq)
  from mod3_cases [of p0] show ?thesis
  proof (elim disjE)
    assume "p0 mod 3 = 0"
    with e [of 0] e [of 1] e [of 2] have "x0 = a" "x1 = b" "x2 = c"
      by simp_all
    then show ?thesis
      by (simp add: invalid_repeat3_def lb)
  next
    assume "p0 mod 3 = 1"
    with e [of 0] e [of 1] e [of 2] have "x1 = a" "x2 = b" "x0 = c"
      by simp_all
    then show ?thesis
      by (auto simp: invalid_repeat3_def lb)
  next
    assume "p0 mod 3 = 2"
    with e [of 0] e [of 1] e [of 2] have "x2 = a" "x0 = b" "x1 = c"
      by simp_all
    then show ?thesis
      by (auto simp: invalid_repeat3_def lb)
  qed
qed

lemma invalid_repeat2_slots:
  assumes lb: "elements (last_bases st) = [x0, x1]"
    and slots: "\<forall>j<2. [x0, x1] ! ((p0 + j) mod 2) = [a, b] ! j"
  shows "invalid_repeat2 st = Some (if a = b then 1 else 0)"
proof -
  have e: "[x0, x1] ! ((p0 mod 2 + j) mod 2) = [a, b] ! j" if "j < 2" for j
    using slots that by (simp add: mod_add_left_eq)
  from mod2_cases [of p0] show ?thesis
  proof (elim disjE)
    assume "p0 mod 2 = 0"
    with e [of 0] e [of 1] have "x0 = a" "x1 = b"
      by simp_all
    then show ?thesis
      by (simp add: invalid_repeat2_def lb)
  next
    assume "p0 mod 2 = 1"
    with e [of 0] e [of 1] have "x1 = a" "x0 = b"
      by simp_all
    then show ?thesis
      by (auto simp: invalid_repeat2_def lb)
  qed
qed

text \<open>
  C3. Unit validator definitions. \<open>w\<close> is the window: the period most recent symbols,
  oldest first, the oldest one read at position \<open>p0\<close>; the ring holds the symbol of
  position \<open>i\<close> in slot \<open>i mod period\<close>, so its slots are a rotation of \<open>w\<close>. The
  validator of period 2 returns 1 (degenerate) exactly when both symbols are equal,
  the one of period 3 exactly when all three are equal, and the one of period 4 exactly
  when the symbols 0 and 2 of the window are equal and the symbols 1 and 3 are equal;
  each returns 0 otherwise.
\<close>

theorem unit_validator:
  assumes len: "length (elements (last_bases st)) = length w"
    and slots: "\<forall>j<length w. elements (last_bases st) ! ((p0 + j) mod length w) = w ! j"
  shows "(length w = 2 \<longrightarrow> invalid_repeat2 st = Some (if w ! 0 = w ! 1 then 1 else 0))
       \<and> (length w = 3 \<longrightarrow>
            invalid_repeat3 st = Some (if w ! 0 = w ! 1 \<and> w ! 1 = w ! 2 then 1 else 0))
       \<and> (length w = 4 \<longrightarrow>
            invalid_repeat4 st = Some (if w ! 0 = w ! 2 \<and> w ! 1 = w ! 3 then 1 else 0))"
proof (intro conjI impI)
  assume l: "length w = 2"
  from l obtain a b where w: "w = [a, b]"
    using list2 by blast
  from l len obtain x0 x1 where lb: "elements (last_bases st) = [x0, x1]"
    using list2 [of "elements (last_bases st)"] by auto
  from slots l have "\<forall>j<2. elements (last_bases st) ! ((p0 + j) mod 2) = w ! j"
    by simp
  then have "\<forall>j<2. [x0, x1] ! ((p0 + j) mod 2) = [a, b] ! j"
    by (simp only: w lb)
  from invalid_repeat2_slots [OF lb this]
  show "invalid_repeat2 st = Some (if w ! 0 = w ! 1 then 1 else 0)"
    by (simp add: w)
next
  assume l: "length w = 3"
  from l obtain a b c where w: "w = [a, b, c]"
    using list3 by blast
  from l len obtain x0 x1 x2 where lb: "elements (last_bases st) = [x0, x1, x2]"
    using list3 [of "elements (last_bases st)"] by auto
  from slots l have "\<forall>j<3. elements (last_bases st) ! ((p0 + j) mod 3) = w ! j"
    by simp
  then have "\<forall>j<3. [x0, x1, x2] ! ((p0 + j) mod 3) = [a, b, c] ! j"
    by (simp only: w lb)
  from invalid_repeat3_slots [OF lb this]
  show "invalid_repeat3 st = Some (if w ! 0 = w ! 1 \<and> w ! 1 = w ! 2 then 1 else 0)"
    by (simp add: w)
next
  assume l: "length w = 4"
  from l obtain a b c d where w: "w = [a, b, c, d]"
    using list4 by blast
  from l len obtain x0 x1 x2 x3 where lb: "elements (last_bases st) = [x0, x1, x2, x3]"
    using list4 [of "elements (last_bases st)"] by auto
  from slots l have "\<forall>j<4. elements (last_bases st) ! ((p0 + j) mod 4) = w ! j"
    by simp
  then have "\<forall>j<4. [x0, x1, x2, x3] ! ((p0 + j) mod 4) = [a, b, c, d] ! j"
    by (simp only: w lb)
  from invalid_repeat4_slots [OF lb this]
  show "invalid_repeat4 st = Some (if w ! 0 = w ! 2 \<and> w ! 1 = w ! 3 then 1 else 0)"
    by (simp add: w)
qed

theorem unit_validator_witness:
  "invalid_repeat2 (example_state 2 Invalid_repeat2 ''TA'' 4) = Some 0
   \<and> invalid_repeat3 (example_state 3 Invalid_repeat3 ''AAA'' 6) = Some 1
   \<and> invalid_repeat4 (example_state 4 Invalid_repeat4 ''TAAT'' 8) = Some 0
   \<and> invalid_repeat4 (example_state 4 Invalid_repeat4 ''TATA'' 8) = Some 1"
proof -
  have a: "invalid_repeat2 (example_state 2 Invalid_repeat2 ''TA'' 4) = Some 0"
    using unit_validator [of "example_state 2 Invalid_repeat2 ''TA'' 4" "''AT''" 1]
    by (simp add: example_state_def All_less_Suc)
  have b: "invalid_repeat3 (example_state 3 Invalid_repeat3 ''AAA'' 6) = Some 1"
    using unit_validator [of "example_state 3 Invalid_repeat3 ''AAA'' 6" "''AAA''" 7]
    by (simp add: example_state_def All_less_Suc)
  have c: "invalid_repeat4 (example_state 4 Invalid_repeat4 ''TAAT'' 8) = Some 0"
    using unit_validator [of "example_state 4 Invalid_repeat4 ''TAAT'' 8" "''AATT''" 5]
    by (simp add: example_state_def All_less_Suc)
  have d: "invalid_repeat4 (example_state 4 Invalid_repeat4 ''TATA'' 8) = Some 1"
    using unit_validator [of "example_state 4 Invalid_repeat4 ''TATA'' 8" "''ATAT''" 5]
    by (simp add: example_state_def All_less_Suc)
  from a b c d show ?thesis
    by simp
qed

section \<open>Facts about the functions of the period-N scanner\<close>

lemma wf_stateD:
  assumes "wf_state st"
  shows "int (length (elements (last_bases st))) = ring_size (last_bases st)"
    and "int (length (unit_buffer st)) = ring_size (last_bases st) + 1"
    and "unit_buffer st ! nat (ring_size (last_bases st)) = CHR 0x00"
    and "0 < ring_size (last_bases st)"
    and "2 \<le> ring_size (last_bases st)"
    and "ring_size (last_bases st) \<le> 4"
  using assms by (auto simp: wf_state_def Let_def)

lemma init_seq_state_wf:
  assumes "init_seq_state chr0 rep len mem = Inr st"
  shows "wf_state st \<and> ring_size (last_bases st) = rep \<and> length_s st = len \<and> chr st = chr0"
  using assms
  by (auto simp: init_seq_state_def init_ring_def malloc_def wf_state_def Let_def
      split: if_splits)

lemma init_seq_state_Inr:
  "rep \<in> {2, 3, 4} \<Longrightarrow> \<exists>st. init_seq_state chr0 rep len mem = Inr st"
  by (auto simp: init_seq_state_def init_ring_def malloc_def Let_def)

lemma call_invalid_repeat_wf:
  assumes "wf_state st"
  shows "\<exists>v. call_invalid_repeat st = Some v \<and> (v = 0 \<or> v = 1)"
  using assms
  by (auto simp: wf_state_def Let_def call_invalid_repeat_def invalid_repeat2_def
      invalid_repeat3_def invalid_repeat4_def)

lemma wf_state_write:
  assumes "wf_state st" and "0 \<le> p"
  shows "\<exists>rg. write_ring (last_bases st) p c = Some rg
           \<and> rg = (last_bases st)\<lparr>elements :=
                (elements (last_bases st))[nat (p mod ring_size (last_bases st)) := int_to_char c]\<rparr>
           \<and> wf_state (st\<lparr>last_bases := rg\<rparr>)"
proof -
  from assms(1) have shape: "0 < ring_size (last_bases st)"
    "int (length (elements (last_bases st))) = ring_size (last_bases st)"
    by (simp_all add: wf_stateD)
  from assms(1) show ?thesis
    by (simp add: write_ring_slot [OF shape assms(2)] wf_state_def Let_def)
qed


lemma copy_unit_result:
  assumes shape: "0 < ring_size rg" "int (length (elements rg)) = ring_size rg"
    and off: "0 \<le> off"
  shows "0 \<le> j \<Longrightarrow> j \<le> ring_size rg \<Longrightarrow> int (length ub) = ring_size rg + 1 \<Longrightarrow>
    copy_unit rg off (ring_size rg) j ub =
      Some (take (nat j) ub @ drop (nat j) (ring_unit rg off) @ drop (nat (ring_size rg)) ub)"
proof (induction "nat (ring_size rg - j)" arbitrary: j ub)
  case 0
  then have j: "j = ring_size rg"
    by simp
  have "length (ring_unit rg off) = nat (ring_size rg)"
    by (simp add: ring_unit_def)
  then show ?case
    unfolding j by (simp add: copy_unit.simps [of rg off "ring_size rg" "ring_size rg" ub])
next
  case (Suc k)
  let ?r = "ring_size rg"
  let ?x = "elements rg ! nat ((j + off) mod ?r)"
  from Suc.hyps(2) have lt: "j < ?r"
    by simp
  from Suc.prems off have jo: "0 \<le> j + off"
    by simp
  have rd: "read_ring rg (j + off) = Some (char_to_int ?x)"
    by (rule read_ring_slot [OF shape jo])
  from lt Suc.prems have inb: "nat j < length ub"
    by (simp add: nat_less_iff)
  let ?ub = "ub[nat j := ?x]"
  have k: "k = nat (?r - (j + 1))"
    using Suc.hyps(2) by simp
  have rec: "copy_unit rg off ?r (j + 1) ?ub =
      Some (take (nat (j + 1)) ?ub @ drop (nat (j + 1)) (ring_unit rg off) @ drop (nat ?r) ?ub)"
    using Suc.hyps(1) [OF k] Suc.prems lt by simp
  have nj: "nat (j + 1) = Suc (nat j)"
    using Suc.prems by (simp add: nat_add_distrib)
  have lu: "length (ring_unit rg off) = nat ?r"
    by (simp add: ring_unit_def)
  from lt Suc.prems have ju: "nat j < length (ring_unit rg off)"
    by (simp add: lu nat_less_iff)
  have uj: "ring_unit rg off ! nat j = ?x"
    using ju Suc.prems by (simp add: ring_unit_def lu)
  have t: "take (Suc (nat j)) ?ub = take (nat j) ub @ [?x]"
    using inb by (simp add: take_Suc_conv_app_nth)
  have d: "drop (nat j) (ring_unit rg off) = ?x # drop (Suc (nat j)) (ring_unit rg off)"
    using ju uj by (metis Cons_nth_drop_Suc)
  have dr: "drop (nat ?r) ?ub = drop (nat ?r) ub"
    using lt Suc.prems by (simp add: drop_update_cancel nat_less_iff)
  show ?case
    using lt Suc.prems inb rd rec
    by (simp add: copy_unit.simps [of rg off ?r j ub] int_to_char_char_to_int nj t d dr)
qed

lemma copy_unit_wf:
  assumes "wf_state st" and "0 \<le> off"
  shows "copy_unit (last_bases st) off (ring_size (last_bases st)) 0 (unit_buffer st) =
    Some (ring_unit (last_bases st) off @ [CHR 0x00])"
proof -
  let ?r = "ring_size (last_bases st)"
  from assms(1) have shape: "0 < ?r" "int (length (elements (last_bases st))) = ?r"
    and ub: "int (length (unit_buffer st)) = ?r + 1" and z: "unit_buffer st ! nat ?r = CHR 0x00"
    by (simp_all add: wf_stateD)
  from ub shape(1) have l: "length (unit_buffer st) = Suc (nat ?r)"
    by linarith
  then have "drop (nat ?r) (unit_buffer st) = [unit_buffer st ! nat ?r]"
    by (metis Cons_nth_drop_Suc drop_all lessI order_refl)
  with z copy_unit_result [OF shape assms(2), of 0 "unit_buffer st"] ub shape(1) show ?thesis
    by simp
qed

lemma c_string_unit: "c_string (u @ [CHR 0x00]) = c_string u"
  by (induction u) (simp_all add: c_string_def)

lemma print_entryN_wf:
  assumes "wf_state st" and "n \<le> p"
  shows "print_entryN st p n =
    (if n \<ge> length_s st
     then Some (st\<lparr>unit_buffer :=
                   ring_unit (last_bases st) ((p - n) mod ring_size (last_bases st)) @ [CHR 0x00]\<rparr>,
                [print_entry (chr st) p n
                   (ring_unit (last_bases st) ((p - n) mod ring_size (last_bases st)) @ [CHR 0x00])])
     else Some (st, []))"
proof -
  let ?r = "ring_size (last_bases st)"
  from assms(1) have r: "0 < ?r"
    by (simp add: wf_stateD)
  with assms(2) have o: "c_rem (p - n) ?r = (p - n) mod ?r" "0 \<le> (p - n) mod ?r"
    by (simp_all add: c_rem_nonneg)
  from r show ?thesis
    by (simp add: print_entryN_def Let_def o copy_unit_wf [OF assms(1) o(2)])
qed

lemma wf_state_unit_buffer:
  assumes "wf_state st" and "int (length u) = ring_size (last_bases st)"
  shows "wf_state (st\<lparr>unit_buffer := u @ [CHR 0x00]\<rparr>)"
proof -
  from assms(2) have "nat (ring_size (last_bases st)) = length u"
    by simp
  with assms show ?thesis
    by (simp add: wf_state_def Let_def nth_append)
qed

lemma length_ring_unit: "length (ring_unit rg off) = nat (ring_size rg)"
  by (simp add: ring_unit_def)

lemma print_entryN_wf_state:
  assumes "wf_state st" and "n \<le> p" and "print_entryN st p n = Some (st', out)"
  shows "wf_state st' \<and> last_bases st' = last_bases st \<and> length_s st' = length_s st
    \<and> chr st' = chr st \<and> invalid_repeat st' = invalid_repeat st"
proof -
  have "int (length (ring_unit (last_bases st) off)) = ring_size (last_bases st)" for off
    using wf_stateD(4) [OF assms(1)] by (simp add: length_ring_unit)
  from wf_state_unit_buffer [OF assms(1) this] assms show ?thesis
    by (auto simp: print_entryN_wf split: if_splits)
qed

lemma next_n_wf:
  assumes "wf_state st" and "0 \<le> p"
  shows "\<exists>rg v. write_ring (last_bases st) p c = Some rg
      \<and> rg = (last_bases st)\<lparr>elements :=
                (elements (last_bases st))[nat (p mod ring_size (last_bases st)) := int_to_char c]\<rparr>
      \<and> wf_state (st\<lparr>last_bases := rg\<rparr>)
      \<and> call_invalid_repeat (st\<lparr>last_bases := rg\<rparr>) = Some v \<and> (v = 0 \<or> v = 1)
      \<and> next_n st p c =
          Some (st\<lparr>last_bases := rg\<rparr>,
                if v = 0 then ring_size (last_bases st) else ring_size (last_bases st) - 1)"
proof -
  from wf_state_write [OF assms, of c] obtain rg where
    w: "write_ring (last_bases st) p c = Some rg"
    and rg: "rg = (last_bases st)\<lparr>elements :=
                (elements (last_bases st))[nat (p mod ring_size (last_bases st)) := int_to_char c]\<rparr>"
    and wf: "wf_state (st\<lparr>last_bases := rg\<rparr>)"
    by blast
  from call_invalid_repeat_wf [OF wf] obtain v where
    v: "call_invalid_repeat (st\<lparr>last_bases := rg\<rparr>) = Some v" "v = 0 \<or> v = 1"
    by blast
  from rg have "ring_size rg = ring_size (last_bases st)"
    by simp
  with w v have "next_n st p c =
      Some (st\<lparr>last_bases := rg\<rparr>,
        if v = 0 then ring_size (last_bases st) else ring_size (last_bases st) - 1)"
    by (auto simp: next_n_def Let_def)
  with w rg wf v show ?thesis
    by blast
qed

section \<open>Scenarios\<close>

text \<open>
  C8. Degeneracy-filter scenario, period 4 and threshold 8, whatever the fresh memory
  of the two buffers holds. Scanning the segment \<^verbatim>\<open>ATATATAT\<close> prints no record;
  scanning \<^verbatim>\<open>AATTAATTAATT\<close> prints exactly one, for the run of length 12 that ends
  at position 12, with the unit \<^verbatim>\<open>AATT\<close>. The same holds of the whole program on a
  file with that one segment. The validator of period 4 accepts the window \<^verbatim>\<open>AATT\<close>
  and rejects \<^verbatim>\<open>ATAT\<close>.
\<close>

theorem degeneracy_filter_scenario:
  "(case init_seq_state chr0 4 8 mem of
      Inl e \<Rightarrow> False
    | Inr st \<Rightarrow>
        map_option (snd \<circ> snd) (scan_seqN ''ATATATAT'' (st\<lparr>chr := ''chr1'' @ [CHR 0x00]\<rparr>) 0 0)
          = Some []
      \<and> map_option (snd \<circ> snd)
            (scan_seqN ''AATTAATTAATT'' (st\<lparr>chr := ''chr1'' @ [CHR 0x00]\<rparr>) 0 0)
          = Some [print_entry (''chr1'' @ [CHR 0x00]) 12 12 (''AATT'' @ [CHR 0x00])])
   \<and> print_entry (''chr1'' @ [CHR 0x00]) 12 12 (''AATT'' @ [CHR 0x00]) = Entry ''chr1'' 0 12 ''AATT''
   \<and> stdout (read_fasta (Some (''>chr1'' @ [CHR 0x0A] @ ''ATATATAT'' @ [CHR 0x0A])) 4 8 mem)
       = [Repeat_length 4, Total_length 8]
   \<and> stdout (read_fasta (Some (''>chr1'' @ [CHR 0x0A] @ ''AATTAATTAATT'' @ [CHR 0x0A])) 4 8 mem)
       = [Repeat_length 4, Total_length 8, Entry ''chr1'' 0 12 ''AATT'']
   \<and> invalid_repeat4 (example_state 4 Invalid_repeat4 ''AATT'' 8) = Some 0
   \<and> invalid_repeat4 (example_state 4 Invalid_repeat4 ''ATAT'' 8) = Some 1"
  by code_simp

section \<open>The output of the program\<close>

lemma is_entry_print_entry: "is_entry (print_entry c p n u)"
  by (simp add: is_entry_def print_entry_def Let_def)

lemma print_entryN_entries:
  "print_entryN st p n = Some (st', out) \<Longrightarrow> list_all is_entry out"
  by (auto simp: print_entryN_def Let_def is_entry_print_entry split: if_splits option.splits)

lemma scan_base_entries:
  "scan_base st p n c = Some (st', n', out) \<Longrightarrow> list_all is_entry out"
  by (auto simp: scan_base_def Let_def split: if_splits option.splits
      dest: print_entryN_entries)

lemma scan_seqN_entries:
  "scan_seqN fp st p n = Some (fp', st', out) \<Longrightarrow> list_all is_entry out"
proof (induction fp arbitrary: st p n fp' st' out)
  case Nil
  then show ?case
    by (auto split: option.splits dest: print_entryN_entries)
next
  case (Cons x fp)
  show ?case
  proof (cases "of_char x = NEWLINE")
    case True
    with Cons show ?thesis
      by simp
  next
    case nl: False
    show ?thesis
    proof (cases "of_char x = BASE_N")
      case True
      with nl Cons.prems obtain st1 out1 out2 where
        "print_entryN st p n = Some (st1, out1)"
        "scan_seqN fp st1 (p + 1) 0 = Some (fp', st', out2)" "out = out1 @ out2"
        by (auto simp: Let_def split: option.splits)
      with Cons.IH [of st1 "p + 1" 0 fp' st' out2] print_entryN_entries [of st p n st1 out1]
      show ?thesis
        by simp
    next
      case nn: False
      show ?thesis
      proof (cases "of_char x = EOF \<or> of_char x = HEADER_PREFIX")
        case True
        with nl nn Cons.prems show ?thesis
          by (auto simp: Let_def split: option.splits dest: print_entryN_entries)
      next
        case False
        with nl nn Cons.prems obtain st1 n1 out1 out2 where
          "scan_base st p n (of_char x) = Some (st1, n1, out1)"
          "scan_seqN fp st1 (p + 1) n1 = Some (fp', st', out2)" "out = out1 @ out2"
          by (auto simp: Let_def split: option.splits)
        with Cons.IH [of st1 "p + 1" n1 fp' st' out2]
          scan_base_entries [of st p n "of_char x" st1 n1 out1]
        show ?thesis
          by simp
      qed
    qed
  qed
qed

lemma scan_seq1_entries:
  "list_all is_entry (fst (scan_seq1 k fp chr0 len lb p n))"
proof (induction k arbitrary: fp lb p n)
  case 0
  then show ?case
    by simp
next
  case (Suc k)
  show ?case
  proof (cases fp)
    case Nil
    with Suc [of "[]"] show ?thesis
      by (simp add: Let_def is_entry_print_entry case_prod_beta)
  next
    case (Cons x fp0)
    with Suc [of fp0] show ?thesis
      by (simp add: Let_def is_entry_print_entry case_prod_beta)
  qed
qed

lemma parse_header_Inr: "\<exists>r. parse_header fp chr0 = Inr r"
  by (auto simp: parse_header_def fscanf_s31_def Let_def split: prod.splits)

lemma stdout_printed: "stdout (printed out err oc) = out @ stdout oc"
  by (simp add: printed_def)

lemma parse_loop_entries: "list_all is_entry (stdout (parse_loop fp chr0 sto len))"
proof (induction fp chr0 sto len rule: parse_loop.induct)
  case (1 fp chr0 sto len)
  from parse_header_Inr [of fp chr0] obtain c fp1 chr1 where
    ph: "parse_header fp chr0 = Inr (c, fp1, chr1)"
    by (metis prod_cases3)
  show ?case
  proof (cases "c \<noteq> EOF")
    case False
    with ph show ?thesis
      by (simp add: parse_loop.simps [of fp chr0 sto len])
  next
    case ne: True
    show ?thesis
    proof (cases sto)
      case None
      obtain out r where s1: "scan_seq1 (Suc (length fp1)) fp1 chr1 len CHR ''N'' 0 1 = (out, r)"
        by (cases "scan_seq1 (Suc (length fp1)) fp1 chr1 len CHR ''N'' 0 1") auto
      from scan_seq1_entries [of "Suc (length fp1)" fp1 chr1 len "CHR ''N''" 0 1] s1
      have o: "list_all is_entry out"
        by simp
      show ?thesis
      proof (cases r)
        case rn: None
        with ph ne None s1 o show ?thesis
          by (simp add: parse_loop.simps [of fp chr0 None len] stdout_printed
              del: scan_seq1.simps)
      next
        case (Some fp2)
        from "1.IH"(1) [OF ph refl refl ne None s1 [symmetric] Some]
        have "list_all is_entry (stdout (parse_loop fp2 chr1 None len))" .
        with ph ne None s1 o Some show ?thesis
          by (simp add: parse_loop.simps [of fp chr0 None len] stdout_printed
              del: scan_seq1.simps)
      qed
    next
      case (Some st)
      show ?thesis
      proof (cases "scan_seqN fp1 (st\<lparr>chr := chr1\<rparr>) 0 0")
        case sn: None
        with ph ne Some show ?thesis
          by (simp add: parse_loop.simps [of fp chr0 "Some st" len] stdout_printed)
      next
        case (Some r)
        obtain fp2 st' out where r: "r = (fp2, st', out)"
          by (cases r) auto
        from scan_seqN_entries [of fp1 "st\<lparr>chr := chr1\<rparr>" 0 0 fp2 st' out] Some r
        have o: "list_all is_entry out"
          by simp
        from "1.IH"(2) [OF ph refl refl ne \<open>sto = Some st\<close> Some [unfolded r] refl refl]
        have "list_all is_entry (stdout (parse_loop fp2 chr1 (Some st') len))" .
        with ph ne \<open>sto = Some st\<close> Some r o show ?thesis
          by (simp add: parse_loop.simps [of fp chr0 "Some st" len] stdout_printed)
      qed
    qed
  qed
qed


lemma read_fasta_stdout:
  "stdout (read_fasta fpo rep len mem) = []
   \<or> (\<exists>es. stdout (read_fasta fpo rep len mem) = Repeat_length rep # Total_length len # es
          \<and> list_all is_entry es)"
proof (cases "len \<le> rep \<or> 4 < rep \<or> fpo = None")
  case True
  then show ?thesis
    by (auto simp: read_fasta_def)
next
  case False
  then obtain fp where fp: "fpo = Some fp"
    by auto
  show ?thesis
  proof (cases "rep = 1")
    case True
    with False fp parse_loop_entries show ?thesis
      by (simp add: read_fasta_def Let_def stdout_printed)
  next
    case r: False
    show ?thesis
    proof (cases "init_seq_state (malloc 32 (mem 2)) rep len mem")
      case (Inl a)
      with False fp r show ?thesis
        by (simp add: read_fasta_def Let_def split: prod.splits)
    next
      case (Inr st)
      with False fp r parse_loop_entries show ?thesis
        by (simp add: read_fasta_def Let_def stdout_printed)
    qed
  qed
qed

text \<open>
  C4, as the claim states it, fails. A record has four fields: the label, the start
  position, the end position and the unit; the run length is not printed (first
  conjunct: the run of length 4 that ends at 5 is printed as 1, 5). And the start
  position is computed from the run length as a \<^verbatim>\<open>char\<close>: the program prints the
  homopolymer of 300 \<^verbatim>\<open>A\<close> that ends at position 300 with start position 256.
\<close>

theorem record_format_counterexample:
  "print_entry (''chr1'' @ [CHR 0x00]) 5 4 (''A'' @ [CHR 0x00]) = Entry ''chr1'' 1 5 ''A''
   \<and> stdout (read_fasta (Some (''>chr1'' @ [CHR 0x0A] @ replicate 300 CHR ''A'' @ [CHR 0x0A])) 1 3
         (\<lambda>a b. CHR ''?''))
       = [Repeat_length 1, Total_length 3, Entry ''chr1'' 256 300 ''A'']
   \<and> (256::int) \<noteq> 300 - 300"
  by code_simp

text \<open>
  C4, amended. Output format: every per-run record is an \<open>Entry\<close>, made of the segment
  label, the run start position, the run end position and the repeating unit; for a
  run length from 0 to 127 the start position is the end position minus the run
  length. Standard output is empty (the program stopped on its configuration) or
  starts with exactly two summary lines, the configured period and then the
  configured threshold, and every line after them is a per-run record.
\<close>

theorem record_format:
  "(0 \<le> n \<and> n \<le> 127 \<longrightarrow>
      print_entry chr0 p n unit = Entry (c_string chr0) (p - n) p (c_string unit))
   \<and> (stdout (read_fasta fpo rep len mem) = []
      \<or> (\<exists>es. stdout (read_fasta fpo rep len mem) = Repeat_length rep # Total_length len # es
             \<and> list_all is_entry es))"
  using read_fasta_stdout [of fpo rep len mem]
  by (simp add: print_entry_def Let_def char_to_int_small)

theorem record_format_witness:
  "print_entry (''chr1'' @ [CHR 0x00]) 6 4 (''AT'' @ [CHR 0x00]) = Entry ''chr1'' 2 6 ''AT''
   \<and> stdout (read_fasta (Some (''>chr1'' @ [CHR 0x0A] @ ''ATATATG'' @ [CHR 0x0A])) 2 4
         (\<lambda>a b. CHR ''?''))
       = [Repeat_length 2, Total_length 4, Entry ''chr1'' 0 6 ''AT'']"
proof -
  have c: "c_string (''chr1'' @ [CHR 0x00]) = ''chr1''" "c_string (''AT'' @ [CHR 0x00]) = ''AT''"
    by code_simp+
  have "(0::int) \<le> 4 \<and> (4::int) \<le> 127"
    by simp
  with record_format [of 4 "''chr1'' @ [CHR 0x00]" 6 "''AT'' @ [CHR 0x00]"] c
  have a: "print_entry (''chr1'' @ [CHR 0x00]) 6 4 (''AT'' @ [CHR 0x00]) = Entry ''chr1'' 2 6 ''AT''"
    by simp
  have b: "stdout (read_fasta (Some (''>chr1'' @ [CHR 0x0A] @ ''ATATATG'' @ [CHR 0x0A])) 2 4
         (\<lambda>a b. CHR ''?''))
       = [Repeat_length 2, Total_length 4, Entry ''chr1'' 0 6 ''AT'']"
    by code_simp
  from a b show ?thesis
    by simp
qed

section \<open>Configuration errors\<close>

text \<open>
  What \<^verbatim>\<open>read_fasta\<close> does with a configuration that is not valid. When the threshold
  is not greater than the period, when the period is greater than 4 and when the file
  could not be opened, it writes one message to the error stream and exits with -1
  before it reads or prints anything. The period 0 passes these three tests and is
  refused by \<^verbatim>\<open>init_seq_state\<close>, with a message and \<^verbatim>\<open>exit(-1)\<close>, after the first
  header of the file has been looked for and before any scan.
\<close>

lemma configuration_errors:
  "len \<le> rep \<or> 4 < rep \<or> fpo = None \<Longrightarrow>
     stdout (read_fasta fpo rep len mem) = []
     \<and> ending (read_fasta fpo rep len mem) = Exited (- 1)
     \<and> stderr (read_fasta fpo rep len mem) \<in> {[Msg_less_than_total], [Msg_in_1_4], [Msg_opening_file]}
     \<and> unread (read_fasta fpo rep len mem) = (case fpo of None \<Rightarrow> [] | Some fp \<Rightarrow> fp)"
  by (auto simp: read_fasta_def)

lemma period_zero_rejected:
  "0 < len \<Longrightarrow>
     read_fasta (Some fp) 0 len mem =
       \<lparr>stdout = [], stderr = [Msg_polynuc 0 len, Msg_invalid_r], ending = Exited (- 1),
        unread = snd (seek_char fp CHR ''>'')\<rparr>"
  by (simp add: read_fasta_def init_seq_state_def init_ring_def malloc_def Let_def)

text \<open>
  C5 at a negative period. The tests of \<^verbatim>\<open>read_fasta\<close> let the period -2 with the
  threshold 10 through (only \<^verbatim>\<open>4 < rep\<close> is tested, against the message that says
  \<^verbatim>\<open>[1,4]\<close>), and \<^verbatim>\<open>init_seq_state\<close> writes \<^verbatim>\<open>unit_buffer[-2]\<close>, outside a buffer that
  could not be allocated, before it looks at the period: the behaviour is undefined,
  and no configuration error is reported.
\<close>

theorem negative_period_undefined:
  "read_fasta (Some fp) (- 2) 10 mem =
     \<lparr>stdout = [], stderr = [Msg_polynuc (- 2) 10], ending = Undefined_behaviour,
      unread = snd (seek_char fp CHR ''>'')\<rparr>"
  by (simp add: read_fasta_def init_seq_state_def init_ring_def malloc_def Let_def)

section \<open>The homopolymer scanner\<close>

lemma of_char_newline: "(of_char x :: int) = NEWLINE \<longleftrightarrow> x = CHR 0x0A"
proof -
  have "(of_char x :: int) = of_char CHR 0x0A \<longleftrightarrow> x = CHR 0x0A"
    by (rule of_char_eq_iff)
  then show ?thesis
    by (simp add: NEWLINE_def)
qed

lemma of_char_header: "(of_char x :: int) = HEADER_PREFIX \<longleftrightarrow> x = CHR ''>''"
proof -
  have "(of_char x :: int) = of_char CHR ''>'' \<longleftrightarrow> x = CHR ''>''"
    by (rule of_char_eq_iff)
  then show ?thesis
    by (simp add: HEADER_PREFIX_def)
qed

lemma of_char_base_N: "(of_char x :: int) = BASE_N \<longleftrightarrow> x = CHR ''N''"
proof -
  have "(of_char x :: int) = of_char CHR ''N'' \<longleftrightarrow> x = CHR ''N''"
    by (rule of_char_eq_iff)
  then show ?thesis
    by (simp add: BASE_N_def)
qed

lemma of_char_not_EOF: "(of_char x :: int) \<noteq> EOF"
  using of_char_range [of x] by (simp add: EOF_def)

lemma scan_seq1_out_Nil:
  "fst (scan_seq1 (Suc k) [] chr0 len lb p n) =
     (if EOF = char_to_int lb then fst (scan_seq1 k [] chr0 len lb (p + 1) (n + 1))
      else if len \<le> n \<and> lb \<noteq> CHR ''N'' then [print_entry chr0 p n [lb, CHR 0x00]] else [])"
  by (simp add: Let_def EOF_def NEWLINE_def)

lemma scan_seq1_out_Cons:
  "fst (scan_seq1 (Suc k) (x # fp) chr0 len lb p n) =
     (if x = CHR 0x0A then fst (scan_seq1 k fp chr0 len lb p n)
      else if of_char x = char_to_int lb then fst (scan_seq1 k fp chr0 len lb (p + 1) (n + 1))
      else (if len \<le> n \<and> lb \<noteq> CHR ''N'' then [print_entry chr0 p n [lb, CHR 0x00]] else [])
           @ (if x = CHR ''>'' then [] else fst (scan_seq1 k fp chr0 len x (p + 1) 1)))"
  by (simp add: Let_def of_char_newline of_char_header of_char_not_EOF int_to_char_of_char
      case_prod_beta)

lemma scan_seq1_spin:
  "EOF = char_to_int lb \<Longrightarrow> scan_seq1 k [] chr0 len lb p n = ([], None)"
  by (induction k arbitrary: p n) (simp_all add: EOF_def NEWLINE_def)

lemma segment_Nil: "segment [] = []"
  by (simp add: segment_def)

lemma segment_Cons:
  "segment (x # fp) =
     (if x = CHR 0x0A then segment fp else if x = CHR ''>'' then [] else x # segment fp)"
  by (simp add: segment_def)


lemma seq1_inv_init: "seq1_inv [] CHR ''N'' 1"
  by (simp add: seq1_inv_def)

lemma seq1_inv_small:
  assumes "seq1_inv pre lb n" and "lb \<noteq> CHR ''N''" and "2 \<le> n"
  shows "(of_char lb :: int) < 128"
  using assms by (auto simp: seq1_inv_def)

lemma seq1_inv_match:
  assumes inv: "seq1_inv pre lb n" and m: "(of_char x :: int) = char_to_int lb"
  shows "x = lb" and "seq1_inv (pre @ [x]) lb (n + 1)"
proof -
  from m have "char_to_int lb = of_char x"
    by simp
  then have x: "lb = x" and small: "(of_char x :: int) < 128"
    by (simp_all add: char_to_int_eq_of_char)
  from x show "x = lb"
    by simp
  show "seq1_inv (pre @ [x]) lb (n + 1)"
  proof (cases "lb = CHR ''N''")
    case True
    with inv x show ?thesis
      by (simp add: seq1_inv_def)
  next
    case False
    with inv have n: "1 \<le> n" "nat n \<le> length pre"
      and eq: "\<And>i. i < nat n \<Longrightarrow> pre ! (length pre - 1 - i) = lb"
      and left: "nat n < length pre \<Longrightarrow> pre ! (length pre - 1 - nat n) \<noteq> lb"
      and hd: "lb \<noteq> CHR ''>''" "lb \<noteq> CHR 0x0A"
      using small x by (auto simp: seq1_inv_def)
    from n have nn: "nat (n + 1) = Suc (nat n)"
      by simp
    have eq': "(pre @ [x]) ! (length (pre @ [x]) - 1 - i) = lb" if "i < nat (n + 1)" for i
    proof (cases i)
      case 0
      with x show ?thesis
        by simp
    next
      case (Suc j)
      with that nn have j: "j < nat n"
        by simp
      with n have "length pre - 1 - j < length pre"
        by simp
      with eq [OF j] Suc show ?thesis
        by (simp add: nth_append)
    qed
    have left': "(pre @ [x]) ! (length (pre @ [x]) - 1 - nat (n + 1)) \<noteq> lb"
      if "nat (n + 1) < length (pre @ [x])"
    proof -
      from that nn have l: "nat n < length pre"
        by simp
      then have "length pre - 1 - nat n < length pre"
        by simp
      with left [OF l] nn show ?thesis
        by (simp add: nth_append)
    qed
    from small x have "\<not> 128 \<le> (of_char lb :: int)"
      by simp
    moreover from n nn have "nat (n + 1) \<le> length (pre @ [x])" and "1 \<le> n + 1"
      by simp_all
    moreover from x have "last (pre @ [x]) = lb"
      by simp
    ultimately show ?thesis
      unfolding seq1_inv_def using hd eq' left' by blast
  qed
qed

lemma seq1_inv_new:
  assumes inv: "seq1_inv pre lb n" and m: "(of_char x :: int) \<noteq> char_to_int lb"
    and x: "x \<noteq> CHR ''>''" "x \<noteq> CHR 0x0A"
  shows "seq1_inv (pre @ [x]) x 1"
proof -
  have left: "(pre @ [x]) ! (length (pre @ [x]) - 1 - nat 1) \<noteq> x"
    if small: "(of_char x :: int) < 128" and l: "nat 1 < length (pre @ [x])"
  proof -
    from l have ne: "pre \<noteq> []"
      by auto
    with inv have lst: "last pre = lb"
      by (simp add: seq1_inv_def)
    from ne have "(pre @ [x]) ! (length (pre @ [x]) - 1 - nat 1) = last pre"
      by (simp add: nth_append last_conv_nth)
    moreover have "lb \<noteq> x"
    proof
      assume "lb = x"
      with small have "char_to_int lb = of_char x"
        by (simp add: char_to_int_def)
      with m show False
        by simp
    qed
    ultimately show ?thesis
      using lst by simp
  qed
  with x show ?thesis
    unfolding seq1_inv_def by (simp del: length_append) simp
qed

lemma emit_run:
  assumes inv: "seq1_inv pre lb n" and len: "1 < len" "len \<le> n" and nN: "lb \<noteq> CHR ''N''"
    and right: "rest \<noteq> [] \<Longrightarrow> (of_char (hd rest) :: int) \<noteq> char_to_int lb"
  shows "reports_run chr0 len (pre @ rest) (print_entry chr0 (int (length pre)) n [lb, CHR 0x00])"
proof -
  from len have n2: "2 \<le> n"
    by simp
  from seq1_inv_small [OF inv nN n2] have small: "(of_char lb :: int) < 128" .
  from inv nN small have n: "1 \<le> n" "nat n \<le> length pre"
    and eq: "\<And>i. i < nat n \<Longrightarrow> pre ! (length pre - 1 - i) = lb"
    and left: "nat n < length pre \<Longrightarrow> pre ! (length pre - 1 - nat n) \<noteq> lb"
    by (auto simp: seq1_inv_def)
  let ?e = "length pre" and ?m = "nat n"
  have inside: "(pre @ rest) ! i = lb" if "?e - ?m \<le> i \<and> i < ?e" for i
  proof -
    from that n have j: "?e - 1 - i < ?m"
      by linarith
    from that have "?e - 1 - (?e - 1 - i) = i"
      by simp
    with eq [OF j] that show ?thesis
      by (simp add: nth_append)
  qed
  have before: "(pre @ rest) ! (?e - ?m - 1) \<noteq> lb" if "?m < ?e"
  proof -
    from that have "?e - ?m - 1 < ?e" "?e - ?m - 1 = ?e - 1 - ?m"
      by simp_all
    with left [OF that] show ?thesis
      by (simp add: nth_append)
  qed
  have after: "(pre @ rest) ! ?e \<noteq> lb" if "?e < length (pre @ rest)"
  proof -
    from that have ne: "rest \<noteq> []"
      by auto
    from small have "char_to_int lb = of_char lb"
      by (simp add: char_to_int_def)
    with right [OF ne] have "hd rest \<noteq> lb"
      by auto
    with ne show ?thesis
      by (simp add: nth_append hd_conv_nth)
  qed
  from n inside before after have "maximal_run (pre @ rest) ?e ?m lb"
    unfolding maximal_run_def by (simp del: length_append) simp
  moreover from n have "int ?m = n"
    by simp
  ultimately show ?thesis
    unfolding reports_run_def using nN len(2) by metis
qed


lemma scan_seq1_reports:
  assumes len: "1 < len"
  shows "seq1_inv pre lb n \<Longrightarrow>
    \<forall>l\<in>set (fst (scan_seq1 k fp chr0 len lb (int (length pre)) n)).
      reports_run chr0 len (pre @ segment fp) l"
proof (induction k arbitrary: fp pre lb n)
  case 0
  then show ?case
    by simp
next
  case (Suc k)
  note inv = Suc.prems
  show ?case
  proof (cases fp)
    case Nil
    show ?thesis
    proof (cases "EOF = char_to_int lb")
      case True
      then show ?thesis
        by (simp only: Nil scan_seq1_spin) simp
    next
      case False
      have "reports_run chr0 len (pre @ [])
          (print_entry chr0 (int (length pre)) n [lb, CHR 0x00])"
        if "len \<le> n" "lb \<noteq> CHR ''N''"
        using emit_run [OF inv len that, of "[]" chr0] by simp
      with False show ?thesis
        by (simp add: Nil scan_seq1_out_Nil segment_Nil del: scan_seq1.simps)
    qed
  next
    case (Cons x fp')
    show ?thesis
    proof (cases "x = CHR 0x0A")
      case True
      with Suc.IH [OF inv, of fp'] show ?thesis
        by (simp add: Cons scan_seq1_out_Cons segment_Cons del: scan_seq1.simps)
    next
      case nl: False
      show ?thesis
      proof (cases "(of_char x :: int) = char_to_int lb")
        case True
        from seq1_inv_match [OF inv True] have x: "x = lb"
          and inv': "seq1_inv (pre @ [x]) lb (n + 1)"
          by simp_all
        from inv x have "x \<noteq> CHR ''>''"
          by (simp add: seq1_inv_def)
        with nl have seg: "segment (x # fp') = x # segment fp'"
          by (simp add: segment_Cons)
        have e: "int (length (pre @ [x])) = int (length pre) + 1"
          and a: "(pre @ [x]) @ segment fp' = pre @ x # segment fp'"
          by simp_all
        from Suc.IH [OF inv', of fp']
        have "\<forall>l\<in>set (fst (scan_seq1 k fp' chr0 len lb (int (length pre) + 1) (n + 1))).
            reports_run chr0 len (pre @ x # segment fp') l"
          unfolding e a .
        with nl True show ?thesis
          by (simp add: Cons scan_seq1_out_Cons seg del: scan_seq1.simps)
      next
        case ne: False
        let ?rest = "segment (x # fp')"
        have hd: "(of_char (hd ?rest) :: int) \<noteq> char_to_int lb" if "?rest \<noteq> []"
          using that nl ne by (simp add: segment_Cons split: if_splits)
        have gate: "reports_run chr0 len (pre @ ?rest)
            (print_entry chr0 (int (length pre)) n [lb, CHR 0x00])"
          if "len \<le> n" "lb \<noteq> CHR ''N''"
          using emit_run [OF inv len that hd] by simp
        show ?thesis
        proof (cases "x = CHR ''>''")
          case True
          with nl ne gate show ?thesis
            by (simp add: Cons scan_seq1_out_Cons del: scan_seq1.simps)
        next
          case False
          with nl have seg: "?rest = x # segment fp'"
            by (simp add: segment_Cons)
          from seq1_inv_new [OF inv ne False nl] have inv': "seq1_inv (pre @ [x]) x 1" .
          have e: "int (length (pre @ [x])) = int (length pre) + 1"
            and a: "(pre @ [x]) @ segment fp' = pre @ x # segment fp'"
            by simp_all
          from Suc.IH [OF inv', of fp']
          have "\<forall>l\<in>set (fst (scan_seq1 k fp' chr0 len x (int (length pre) + 1) 1)).
              reports_run chr0 len (pre @ x # segment fp') l"
            unfolding e a .
          with nl ne False gate seg show ?thesis
            by (auto simp add: Cons scan_seq1_out_Cons simp del: scan_seq1.simps)
        qed
      qed
    qed
  qed
qed

text \<open>
  What holds of every run \<^verbatim>\<open>scan_seq1\<close> hands to \<^verbatim>\<open>print_entry\<close>, for a threshold
  greater than 1 (\<^verbatim>\<open>read_fasta\<close> runs \<^verbatim>\<open>scan_seq1\<close> with no other): the call has the end
  position \<open>e\<close>, the length \<open>m\<close> at least the threshold and a symbol \<open>s\<close> other than
  \<^verbatim>\<open>N\<close>, such that the \<open>m\<close> symbols of the segment before position \<open>e\<close> are all
  \<open>s\<close> and the symbols next to them on either side, where the segment has them, are
  not \<open>s\<close>. This is about the arguments of the call, not about the record printed:
  \<^verbatim>\<open>print_entry\<close> receives the length in a \<^verbatim>\<open>char\<close>.
\<close>

lemma scan_seq1_runs_maximal:
  assumes "1 < len"
  shows "\<forall>l\<in>set (fst (scan_seq1 k fp chr0 len CHR ''N'' 0 1)).
    \<exists>e m s. l = print_entry chr0 (int e) (int m) [s, CHR 0x00]
      \<and> s \<noteq> CHR ''N'' \<and> len \<le> int m
      \<and> 1 \<le> m \<and> m \<le> e \<and> e \<le> length (segment fp)
      \<and> (\<forall>i. e - m \<le> i \<and> i < e \<longrightarrow> segment fp ! i = s)
      \<and> (m < e \<longrightarrow> segment fp ! (e - m - 1) \<noteq> s)
      \<and> (e < length (segment fp) \<longrightarrow> segment fp ! e \<noteq> s)"
  using scan_seq1_reports [OF assms seq1_inv_init, of k fp chr0]
  by (simp add: reports_run_def maximal_run_def del: scan_seq1.simps)

text \<open>
  C7 at a run of 300 symbols. The segment is 300 times \<^verbatim>\<open>A\<close>, the threshold is 3. The
  one record printed gives the run as starting at 256 and ending at 300: the length
  300 reaches \<^verbatim>\<open>print_entry\<close> as the \<^verbatim>\<open>char\<close> 44. The run the record reports is not
  the run of the segment: it is not maximal, the symbol at position 255, just before
  it, is \<^verbatim>\<open>A\<close> as well, and it misses the first 256 symbols of the run. For a run
  of 200 symbols the record even starts (at 256) after it ends (at 200).
\<close>

theorem homopolymer_long_run_record:
  "fst (scan_seq1 302 (replicate 300 CHR ''A'') (''chr1'' @ [CHR 0x00]) 3 CHR ''N'' 0 1)
     = [Entry ''chr1'' 256 300 ''A'']
   \<and> segment (replicate 300 CHR ''A'') = replicate 300 CHR ''A''
   \<and> replicate 300 CHR ''A'' ! 255 = CHR ''A''
   \<and> fst (scan_seq1 202 (replicate 200 CHR ''A'') (''chr1'' @ [CHR 0x00]) 3 CHR ''N'' 0 1)
     = [Entry ''chr1'' 256 200 ''A'']"
  by code_simp

section \<open>The freshness of the ring\<close>

lemma nat_int_mod: "0 < R \<Longrightarrow> nat (int i mod R) = i mod nat R"
  by (metis nat_int nat_mod_distrib of_nat_0_le_iff order_less_imp_le)

lemma mod_distinct:
  fixes i p r :: nat
  assumes "i < p" and "p - i < r"
  shows "i mod r \<noteq> p mod r"
proof
  assume e: "i mod r = p mod r"
  from assms have "(p - i) mod r = p - i"
    by simp
  moreover from e assms(1) have "(p - i) mod r = 0"
    by (metis mod_eq_dvd_iff_nat mod_0_imp_dvd order_less_imp_le dvd_imp_mod_0)
  ultimately show False
    using assms(1) by simp
qed

lemma slots_after_write:
  fixes r p k :: nat
  assumes r: "0 < r" and k: "k < r" "k \<le> p" and l: "length els = r" and p: "length pre = p"
    and old: "\<forall>i. p - k \<le> i \<and> i < p \<longrightarrow> els ! (i mod r) = pre ! i"
  shows "\<forall>i. p - k \<le> i \<and> i < Suc p \<longrightarrow> (els[p mod r := x]) ! (i mod r) = (pre @ [x]) ! i"
proof (intro allI impI)
  fix i
  assume i: "p - k \<le> i \<and> i < Suc p"
  show "(els[p mod r := x]) ! (i mod r) = (pre @ [x]) ! i"
  proof (cases "i = p")
    case True
    with r l p show ?thesis
      by (auto simp: nth_append)
  next
    case False
    with i have lt: "i < p"
      by simp
    with i k have "p - i < r"
      by linarith
    from mod_distinct [OF lt this] have "i mod r \<noteq> p mod r" .
    with old i lt p show ?thesis
      by (simp add: nth_append)
  qed
qed


lemma fresh_unit_buffer [simp]: "fresh pre (st\<lparr>unit_buffer := u\<rparr>) n = fresh pre st n"
  by (simp add: fresh_def)

lemma fresh_init: "fresh [] st 0"
  by (simp add: fresh_def)

lemma fresh_break: "fresh (pre @ [x]) st 0"
  by (auto simp: fresh_def)

lemma wf_state_nat:
  assumes "wf_state st"
  shows "0 < nat (ring_size (last_bases st))"
    and "length (elements (last_bases st)) = nat (ring_size (last_bases st))"
    and "int (nat (ring_size (last_bases st))) = ring_size (last_bases st)"
  using wf_stateD [OF assms] by simp_all

text \<open>A write at the current position, after which the run length is at most one more
  than the number of fresh slots kept.\<close>

lemma fresh_write:
  assumes wf: "wf_state st" and fr: "fresh pre st n" and x: "x \<noteq> CHR ''N''"
    and n': "0 \<le> n'" "n' \<le> n + 1" "n' \<le> ring_size (last_bases st)"
    and rg: "rg = (last_bases st)\<lparr>elements :=
        (elements (last_bases st))[nat (int (length pre) mod ring_size (last_bases st)) := x]\<rparr>"
  shows "fresh (pre @ [x]) (st\<lparr>last_bases := rg\<rparr>) n'"
    and "\<forall>i. Suc (length pre) - min (Suc (nat n)) (nat (ring_size (last_bases st))) \<le> i
            \<and> i < Suc (length pre) \<longrightarrow> elements rg ! (i mod nat (ring_size (last_bases st))) = (pre @ [x]) ! i"
proof -
  let ?r = "nat (ring_size (last_bases st))" and ?p = "length pre"
  let ?els = "elements (last_bases st)"
  let ?k = "min (nat n) (?r - 1)"
  note w = wf_state_nat [OF wf]
  from fr have n: "0 \<le> n" "nat n \<le> ?p"
    and slots: "\<forall>i. ?p - min (nat n) ?r \<le> i \<and> i < ?p \<longrightarrow> ?els ! (i mod ?r) = pre ! i"
    and noN: "\<forall>i. ?p - nat n \<le> i \<and> i < ?p \<longrightarrow> pre ! i \<noteq> CHR ''N''"
    by (simp_all add: fresh_def Let_def)
  have k: "?k < ?r" "?k \<le> ?p"
    using w(1) n by simp_all
  have old: "\<forall>i. ?p - ?k \<le> i \<and> i < ?p \<longrightarrow> ?els ! (i mod ?r) = pre ! i"
    using slots by auto
  have idx: "nat (int ?p mod ring_size (last_bases st)) = ?p mod ?r"
    using wf_stateD(4) [OF wf] by (rule nat_int_mod)
  from slots_after_write [OF w(1) k w(2) refl old, of x]
  have new: "\<forall>i. ?p - ?k \<le> i \<and> i < Suc ?p \<longrightarrow> elements rg ! (i mod ?r) = (pre @ [x]) ! i"
    by (simp add: rg idx)
  have km: "Suc ?k = min (Suc (nat n)) ?r"
    using w(1) by auto
  from k(2) have sub: "Suc ?p - Suc ?k = ?p - ?k"
    by simp
  from new show full: "\<forall>i. Suc ?p - min (Suc (nat n)) ?r \<le> i \<and> i < Suc ?p
      \<longrightarrow> elements rg ! (i mod ?r) = (pre @ [x]) ! i"
    unfolding km [symmetric] sub .
  have n'k: "nat n' \<le> Suc ?k"
    using n' n w(1,3) by auto
  have a: "\<forall>i. Suc ?p - min (nat n') ?r \<le> i \<and> i < Suc ?p
      \<longrightarrow> elements rg ! (i mod ?r) = (pre @ [x]) ! i"
  proof (intro allI impI)
    fix i
    assume i: "Suc ?p - min (nat n') ?r \<le> i \<and> i < Suc ?p"
    have "min (nat n') ?r \<le> Suc ?k"
      using n'k by (simp add: min_le_iff_disj)
    then have "Suc ?p - Suc ?k \<le> Suc ?p - min (nat n') ?r"
      by (rule diff_le_mono2)
    with i have "?p - ?k \<le> i \<and> i < Suc ?p"
      by simp
    with new show "elements rg ! (i mod ?r) = (pre @ [x]) ! i"
      by blast
  qed
  have b: "\<forall>i. Suc ?p - nat n' \<le> i \<and> i < Suc ?p \<longrightarrow> (pre @ [x]) ! i \<noteq> CHR ''N''"
  proof (intro allI impI)
    fix i
    assume i: "Suc ?p - nat n' \<le> i \<and> i < Suc ?p"
    show "(pre @ [x]) ! i \<noteq> CHR ''N''"
    proof (cases "i = ?p")
      case True
      with x show ?thesis
        by simp
    next
      case False
      with i n'(2) n have "?p - nat n \<le> i \<and> i < ?p"
        by linarith
      with noN show ?thesis
        by (simp add: nth_append)
    qed
  qed
  have c: "\<forall>i. Suc ?p - nat n' + ?r \<le> i \<and> i < Suc ?p \<longrightarrow> (pre @ [x]) ! i = (pre @ [x]) ! (i - ?r)"
  proof -
    from n'(3) w(3) have "nat n' \<le> ?r"
      by linarith
    then have "\<not> (Suc ?p - nat n' + ?r \<le> i \<and> i < Suc ?p)" for i
      by linarith
    then show ?thesis
      by blast
  qed
  have d: "nat n' \<le> Suc ?p"
    using n'k k(2) by simp
  have rs: "ring_size rg = ring_size (last_bases st)"
    by (simp add: rg)
  from a b c d n'(1) show "fresh (pre @ [x]) (st\<lparr>last_bases := rg\<rparr>) n'"
    unfolding fresh_def Let_def by (simp add: rs)
qed


lemma fresh_read:
  assumes wf: "wf_state st" and fr: "fresh pre st n" and n: "ring_size (last_bases st) \<le> n"
  shows "read_ring (last_bases st) (int (length pre)) =
      Some (char_to_int (pre ! (length pre - nat (ring_size (last_bases st)))))"
    and "elements (last_bases st) ! (length pre mod nat (ring_size (last_bases st))) =
      pre ! (length pre - nat (ring_size (last_bases st)))"
    and "nat (ring_size (last_bases st)) \<le> length pre"
proof -
  let ?r = "nat (ring_size (last_bases st))" and ?p = "length pre"
  let ?els = "elements (last_bases st)"
  note w = wf_state_nat [OF wf]
  from fr have np: "0 \<le> n" "nat n \<le> ?p"
    and slots: "\<forall>i. ?p - min (nat n) ?r \<le> i \<and> i < ?p \<longrightarrow> ?els ! (i mod ?r) = pre ! i"
    by (simp_all add: fresh_def Let_def)
  from n np w(3) have rn: "?r \<le> nat n"
    by linarith
  with np show rp: "?r \<le> ?p"
    by simp
  from rn have "min (nat n) ?r = ?r"
    by simp
  with slots rp w(1) have "?els ! ((?p - ?r) mod ?r) = pre ! (?p - ?r)"
    by simp
  moreover from rp have "(?p - ?r) mod ?r = ?p mod ?r"
    by (simp add: le_mod_geq)
  ultimately show e: "?els ! (?p mod ?r) = pre ! (?p - ?r)"
    by simp
  have "nat (int ?p mod ring_size (last_bases st)) = ?p mod ?r"
    using wf_stateD(4) [OF wf] by (rule nat_int_mod)
  with e read_ring_slot [OF wf_stateD(4) [OF wf] wf_stateD(1) [OF wf], of "int ?p"]
  show "read_ring (last_bases st) (int ?p) = Some (char_to_int (pre ! (?p - ?r)))"
    by simp
qed

lemma fresh_match:
  assumes wf: "wf_state st" and fr: "fresh pre st n" and n: "ring_size (last_bases st) \<le> n"
    and m: "char_to_int (pre ! (length pre - nat (ring_size (last_bases st)))) = of_char x"
    and x: "x \<noteq> CHR ''N''"
  shows "fresh (pre @ [x]) st (n + 1)"
proof -
  let ?r = "nat (ring_size (last_bases st))" and ?p = "length pre"
  let ?els = "elements (last_bases st)"
  note w = wf_state_nat [OF wf]
  from fr have np: "0 \<le> n" "nat n \<le> ?p"
    and slots: "\<forall>i. ?p - min (nat n) ?r \<le> i \<and> i < ?p \<longrightarrow> ?els ! (i mod ?r) = pre ! i"
    and noN: "\<forall>i. ?p - nat n \<le> i \<and> i < ?p \<longrightarrow> pre ! i \<noteq> CHR ''N''"
    and per: "\<forall>i. ?p - nat n + ?r \<le> i \<and> i < ?p \<longrightarrow> pre ! i = pre ! (i - ?r)"
    by (simp_all add: fresh_def Let_def)
  from n np w(3) have rn: "?r \<le> nat n"
    by linarith
  note rd = fresh_read [OF wf fr n]
  from m have lag: "pre ! (?p - ?r) = x"
    by (simp add: char_to_int_eq_of_char)
  from np have nn: "nat (n + 1) = Suc (nat n)"
    by simp
  have a: "\<forall>i. Suc ?p - min (Suc (nat n)) ?r \<le> i \<and> i < Suc ?p
      \<longrightarrow> ?els ! (i mod ?r) = (pre @ [x]) ! i"
  proof (intro allI impI)
    fix i
    assume i: "Suc ?p - min (Suc (nat n)) ?r \<le> i \<and> i < Suc ?p"
    show "?els ! (i mod ?r) = (pre @ [x]) ! i"
    proof (cases "i = ?p")
      case True
      with rd(2) lag show ?thesis
        by simp
    next
      case False
      with i rn have "?p - min (nat n) ?r \<le> i \<and> i < ?p"
        by (simp add: min_def) linarith
      with slots show ?thesis
        by (simp add: nth_append)
    qed
  qed
  have b: "\<forall>i. Suc ?p - Suc (nat n) \<le> i \<and> i < Suc ?p \<longrightarrow> (pre @ [x]) ! i \<noteq> CHR ''N''"
  proof (intro allI impI)
    fix i
    assume i: "Suc ?p - Suc (nat n) \<le> i \<and> i < Suc ?p"
    show "(pre @ [x]) ! i \<noteq> CHR ''N''"
    proof (cases "i = ?p")
      case True
      with x show ?thesis
        by simp
    next
      case False
      with i have "?p - nat n \<le> i \<and> i < ?p"
        by simp
      with noN show ?thesis
        by (simp add: nth_append)
    qed
  qed
  have c: "\<forall>i. Suc ?p - Suc (nat n) + ?r \<le> i \<and> i < Suc ?p
      \<longrightarrow> (pre @ [x]) ! i = (pre @ [x]) ! (i - ?r)"
  proof (intro allI impI)
    fix i
    assume i: "Suc ?p - Suc (nat n) + ?r \<le> i \<and> i < Suc ?p"
    show "(pre @ [x]) ! i = (pre @ [x]) ! (i - ?r)"
    proof (cases "i = ?p")
      case True
      with lag rd(3) w(1) show ?thesis
        by (simp add: nth_append)
    next
      case False
      with i have r: "?p - nat n + ?r \<le> i \<and> i < ?p"
        by simp
      with per have "pre ! i = pre ! (i - ?r)"
        by blast
      moreover from r have "i - ?r < ?p"
        by linarith
      ultimately show ?thesis
        using r by (simp add: nth_append)
    qed
  qed
  from np have "0 \<le> n + 1" "Suc (nat n) \<le> Suc ?p"
    by simp_all
  with a b c show ?thesis
    unfolding fresh_def Let_def nn by simp
qed

text \<open>Under the periodicity kept by the loop, the slots hold the symbols of the whole
  run, not only of its last period.\<close>

lemma fresh_run_slots:
  assumes wf: "wf_state st" and fr: "fresh pre st n"
  shows "length pre - nat n \<le> i \<Longrightarrow> i < length pre \<Longrightarrow>
    elements (last_bases st) ! (i mod nat (ring_size (last_bases st))) = pre ! i"
proof (induction "length pre - i" arbitrary: i rule: less_induct)
  case less
  let ?r = "nat (ring_size (last_bases st))" and ?p = "length pre"
  let ?els = "elements (last_bases st)"
  note w = wf_state_nat [OF wf]
  from fr have slots: "\<forall>i. ?p - min (nat n) ?r \<le> i \<and> i < ?p \<longrightarrow> ?els ! (i mod ?r) = pre ! i"
    and per: "\<forall>i. ?p - nat n + ?r \<le> i \<and> i < ?p \<longrightarrow> pre ! i = pre ! (i - ?r)"
    by (simp_all add: fresh_def Let_def)
  show ?case
  proof (cases "?p - min (nat n) ?r \<le> i")
    case True
    with slots less.prems show ?thesis
      by blast
  next
    case False
    with less.prems have far: "i + ?r < ?p" and "?p - nat n + ?r \<le> i + ?r"
      by simp_all
    with per have "pre ! (i + ?r) = pre ! i"
      by (metis add_diff_cancel_right')
    moreover from far w(1) less.prems have "?els ! ((i + ?r) mod ?r) = pre ! (i + ?r)"
      by (intro less.hyps) simp_all
    ultimately show ?thesis
      by simp
  qed
qed

lemma fresh_unit:
  assumes wf: "wf_state st" and fr: "fresh pre st n" and n: "ring_size (last_bases st) \<le> n"
  shows "ring_unit (last_bases st) ((int (length pre) - n) mod ring_size (last_bases st)) =
    take (nat (ring_size (last_bases st))) (drop (length pre - nat n) pre)"
proof (rule nth_equalityI)
  let ?R = "ring_size (last_bases st)"
  let ?r = "nat ?R" and ?p = "length pre"
  let ?a = "?p - nat n"
  note w = wf_state_nat [OF wf]
  from fr have np: "0 \<le> n" "nat n \<le> ?p"
    by (simp_all add: fresh_def Let_def)
  from n np w(3) have rn: "?r \<le> nat n"
    by linarith
  show len: "length (ring_unit (last_bases st) ((int ?p - n) mod ?R)) =
      length (take ?r (drop ?a pre))"
    using rn np by (simp add: length_ring_unit)
  fix j
  assume "j < length (ring_unit (last_bases st) ((int ?p - n) mod ?R))"
  then have j: "j < ?r"
    by (simp add: length_ring_unit)
  from np have a: "int ?p - n = int ?a"
    by simp
  have "(int j + (int ?p - n) mod ?R) mod ?R = int (j + ?a) mod ?R"
    unfolding a by (simp add: mod_add_right_eq)
  then have idx: "nat ((int j + (int ?p - n) mod ?R) mod ?R) = (?a + j) mod ?r"
    using nat_int_mod [OF wf_stateD(4) [OF wf], of "j + ?a"] by (simp add: add.commute)
  from j rn np have "?a \<le> ?a + j" "?a + j < ?p"
    by simp_all
  from fresh_run_slots [OF wf fr this]
  have "elements (last_bases st) ! ((?a + j) mod ?r) = pre ! (?a + j)" .
  with idx j show "ring_unit (last_bases st) ((int ?p - n) mod ?R) ! j = take ?r (drop ?a pre) ! j"
    using rn np by (simp add: ring_unit_def)
qed


lemma print_entryN_fresh:
  assumes wf: "wf_state st" and fr: "fresh pre st n"
    and th: "ring_size (last_bases st) < length_s st"
  shows "print_entryN st (int (length pre)) n =
    (if length_s st \<le> n
     then Some (st\<lparr>unit_buffer :=
                   take (nat (ring_size (last_bases st))) (drop (length pre - nat n) pre) @ [CHR 0x00]\<rparr>,
                [print_entry (chr st) (int (length pre)) n
                   (take (nat (ring_size (last_bases st))) (drop (length pre - nat n) pre) @ [CHR 0x00])])
     else Some (st, []))"
proof -
  from fr have "0 \<le> n" "nat n \<le> length pre"
    by (simp_all add: fresh_def Let_def)
  then have np: "n \<le> int (length pre)"
    by linarith
  show ?thesis
  proof (cases "length_s st \<le> n")
    case True
    with th have "ring_size (last_bases st) \<le> n"
      by simp
    from fresh_unit [OF wf fr this] True show ?thesis
      by (simp add: print_entryN_wf [OF wf np])
  next
    case False
    then show ?thesis
      by (simp add: print_entryN_wf [OF wf np])
  qed
qed

lemma residue_position:
  fixes b r k :: nat
  assumes "k < r"
  shows "\<exists>i. b \<le> i \<and> i < b + r \<and> i mod r = k"
proof (intro exI conjI)
  let ?i = "b + (k + r - b mod r) mod r"
  from assms have r: "0 < r"
    by simp
  show "b \<le> ?i"
    by simp
  from r show "?i < b + r"
    by simp
  from r have le: "b mod r \<le> k + r"
    by (simp add: trans_le_add2 order_less_imp_le)
  have "?i mod r = (b + (k + r - b mod r)) mod r"
    by (simp add: mod_add_right_eq)
  also have "\<dots> = (b mod r + (k + r - b mod r)) mod r"
    by (simp add: mod_add_left_eq)
  also from le have "\<dots> = (k + r) mod r"
    by simp
  also from assms have "\<dots> = k"
    by simp
  finally show "?i mod r = k" .
qed

lemma window_determines:
  fixes r q :: nat
  assumes l: "length els1 = r" "length els2 = r" and q: "r \<le> q"
    and w1: "\<forall>i. q - r \<le> i \<and> i < q \<longrightarrow> els1 ! (i mod r) = w ! i"
    and w2: "\<forall>i. q - r \<le> i \<and> i < q \<longrightarrow> els2 ! (i mod r) = w ! i"
  shows "els1 = els2"
proof (rule nth_equalityI)
  from l show "length els1 = length els2"
    by simp
  fix k
  assume "k < length els1"
  with l have "k < r"
    by simp
  from residue_position [OF this, of "q - r"] q obtain i where
    i: "q - r \<le> i \<and> i < q" "i mod r = k"
    by auto
  with w1 w2 show "els1 ! k = els2 ! k"
    by metis
qed

lemma call_invalid_repeat_cong:
  assumes "elements (last_bases a) = elements (last_bases b)"
    and "invalid_repeat a = invalid_repeat b"
  shows "call_invalid_repeat a = call_invalid_repeat b"
  using assms
  by (simp add: call_invalid_repeat_def invalid_repeat2_def invalid_repeat3_def
      invalid_repeat4_def split: repeat_fn.splits)

lemma same_config_refl: "same_config st st"
  by (simp add: same_config_def)

lemma next_n_fresh2:
  assumes wf: "wf_state st1" "wf_state st2" and sc: "same_config st1 st2"
    and fr: "fresh pre st1 n" "fresh pre st2 n"
    and x: "x \<noteq> CHR ''N''" and n: "ring_size (last_bases st1) - 1 \<le> n"
  shows "\<exists>st1' st2' n'.
      next_n st1 (int (length pre)) (of_char x) = Some (st1', n')
    \<and> next_n st2 (int (length pre)) (of_char x) = Some (st2', n')
    \<and> wf_state st1' \<and> wf_state st2'
    \<and> same_config st1' st1 \<and> same_config st2' st2
    \<and> fresh (pre @ [x]) st1' n' \<and> fresh (pre @ [x]) st2' n'"
proof -
  let ?R = "ring_size (last_bases st1)"
  let ?r = "nat ?R" and ?p = "length pre"
  from sc have R2: "ring_size (last_bases st2) = ?R"
    and tag: "invalid_repeat st1 = invalid_repeat st2"
    by (simp_all add: same_config_def)
  have p0: "0 \<le> int ?p"
    by simp
  from next_n_wf [OF wf(1) p0, of "of_char x"] obtain rg1 v1 where
    rg1: "rg1 = (last_bases st1)\<lparr>elements :=
        (elements (last_bases st1))[nat (int ?p mod ?R) := x]\<rparr>"
    and wf1: "wf_state (st1\<lparr>last_bases := rg1\<rparr>)"
    and v1: "call_invalid_repeat (st1\<lparr>last_bases := rg1\<rparr>) = Some v1" "v1 = 0 \<or> v1 = 1"
    and nn1: "next_n st1 (int ?p) (of_char x) =
        Some (st1\<lparr>last_bases := rg1\<rparr>, if v1 = 0 then ?R else ?R - 1)"
    by (auto simp: int_to_char_of_char)
  from next_n_wf [OF wf(2) p0, of "of_char x"] R2 obtain rg2 v2 where
    rg2: "rg2 = (last_bases st2)\<lparr>elements :=
        (elements (last_bases st2))[nat (int ?p mod ring_size (last_bases st2)) := x]\<rparr>"
    and wf2: "wf_state (st2\<lparr>last_bases := rg2\<rparr>)"
    and v2: "call_invalid_repeat (st2\<lparr>last_bases := rg2\<rparr>) = Some v2" "v2 = 0 \<or> v2 = 1"
    and nn2: "next_n st2 (int ?p) (of_char x) =
        Some (st2\<lparr>last_bases := rg2\<rparr>, if v2 = 0 then ?R else ?R - 1)"
    by (auto simp: int_to_char_of_char)
  from fr(1) have np: "0 \<le> n" "nat n \<le> ?p"
    by (simp_all add: fresh_def Let_def)
  note w = wf_state_nat [OF wf(1)]
  from n np w(3) have rn: "?r \<le> Suc (nat n)"
    by linarith
  then have m: "min (Suc (nat n)) ?r = ?r"
    by simp
  have bounds: "0 \<le> ?R" "0 \<le> ?R - 1" "?R \<le> n + 1" "?R - 1 \<le> n + 1"
    using wf_stateD(4) [OF wf(1)] n by simp_all
  have window1: "\<forall>i. Suc ?p - ?r \<le> i \<and> i < Suc ?p \<longrightarrow> elements rg1 ! (i mod ?r) = (pre @ [x]) ! i"
    using fresh_write(2) [OF wf(1) fr(1) x bounds(1,3) order_refl rg1] unfolding m .
  have window2: "\<forall>i. Suc ?p - ?r \<le> i \<and> i < Suc ?p \<longrightarrow> elements rg2 ! (i mod ?r) = (pre @ [x]) ! i"
    using fresh_write(2) [OF wf(2) fr(2) x, of ?R rg2] bounds rg2 m unfolding R2 by simp
  from rn np have q: "?r \<le> Suc ?p"
    by simp
  have l1: "length (elements rg1) = ?r"
    using wf_state_nat(2) [OF wf1] by simp (simp add: rg1)
  have l2: "length (elements rg2) = ?r"
    using wf_state_nat(2) [OF wf2] by simp (simp add: rg2 R2)
  from window_determines [OF l1 l2 q window1 window2] have "elements rg1 = elements rg2" .
  with tag have "call_invalid_repeat (st1\<lparr>last_bases := rg1\<rparr>) =
      call_invalid_repeat (st2\<lparr>last_bases := rg2\<rparr>)"
    by (intro call_invalid_repeat_cong) simp_all
  with v1 v2 have v: "v2 = v1"
    by simp
  let ?n' = "if v1 = 0 then ?R else ?R - 1"
  have n': "0 \<le> ?n'" "?n' \<le> n + 1" "?n' \<le> ?R"
    using bounds by simp_all
  have f1: "fresh (pre @ [x]) (st1\<lparr>last_bases := rg1\<rparr>) ?n'"
    using fresh_write(1) [OF wf(1) fr(1) x n' rg1] .
  have f2: "fresh (pre @ [x]) (st2\<lparr>last_bases := rg2\<rparr>) ?n'"
    using fresh_write(1) [OF wf(2) fr(2) x, of ?n' rg2] n' rg2 unfolding R2 by simp
  have c1: "same_config (st1\<lparr>last_bases := rg1\<rparr>) st1"
    by (simp add: same_config_def rg1)
  have c2: "same_config (st2\<lparr>last_bases := rg2\<rparr>) st2"
    by (simp add: same_config_def rg2)
  from nn1 nn2 v wf1 wf2 c1 c2 f1 f2 show ?thesis
    by auto
qed

lemma same_config_sym: "same_config a b \<Longrightarrow> same_config b a"
  by (simp add: same_config_def)

lemma same_config_trans: "same_config a b \<Longrightarrow> same_config b c \<Longrightarrow> same_config a c"
  by (simp add: same_config_def)

lemma same_config_unit_buffer [simp]:
  "same_config (a\<lparr>unit_buffer := u\<rparr>) b = same_config a b"
  "same_config a (b\<lparr>unit_buffer := u\<rparr>) = same_config a b"
  by (simp_all add: same_config_def)

lemma print_entryN_fresh2:
  assumes wf: "wf_state st1" "wf_state st2" and sc: "same_config st1 st2"
    and fr: "fresh pre st1 n" "fresh pre st2 n"
    and th: "ring_size (last_bases st1) < length_s st1"
  shows "\<exists>st1' st2' out.
      print_entryN st1 (int (length pre)) n = Some (st1', out)
    \<and> print_entryN st2 (int (length pre)) n = Some (st2', out)
    \<and> wf_state st1' \<and> wf_state st2'
    \<and> same_config st1' st1 \<and> same_config st2' st2
    \<and> last_bases st1' = last_bases st1 \<and> last_bases st2' = last_bases st2
    \<and> out = (if length_s st1 \<le> n
              then [print_entry (chr st1) (int (length pre)) n
                      (take (nat (ring_size (last_bases st1))) (drop (length pre - nat n) pre)
                       @ [CHR 0x00])]
              else [])"
proof -
  from sc have e: "ring_size (last_bases st2) = ring_size (last_bases st1)"
    "length_s st2 = length_s st1" "chr st2 = chr st1"
    by (simp_all add: same_config_def)
  from th e have th2: "ring_size (last_bases st2) < length_s st2"
    by simp
  from fr(1) have np: "n \<le> int (length pre)"
    by (simp add: fresh_def Let_def) linarith
  note p1 = print_entryN_fresh [OF wf(1) fr(1) th]
  note p2 = print_entryN_fresh [OF wf(2) fr(2) th2, unfolded e]
  show ?thesis
  proof (cases "length_s st1 \<le> n")
    case True
    with p1 p2 obtain st1' st2' out where
      a: "print_entryN st1 (int (length pre)) n = Some (st1', out)"
      and b: "print_entryN st2 (int (length pre)) n = Some (st2', out)"
      and o: "out = [print_entry (chr st1) (int (length pre)) n
                      (take (nat (ring_size (last_bases st1))) (drop (length pre - nat n) pre)
                       @ [CHR 0x00])]"
      by simp
    from print_entryN_wf_state [OF wf(1) np a] print_entryN_wf_state [OF wf(2) np b]
    have "wf_state st1'" "wf_state st2'" "same_config st1' st1" "same_config st2' st2"
      "last_bases st1' = last_bases st1" "last_bases st2' = last_bases st2"
      by (simp_all add: same_config_def)
    with a b o True show ?thesis
      by auto
  next
    case False
    with p1 p2 wf show ?thesis
      by (simp add: same_config_refl)
  qed
qed

lemma fresh_last_bases:
  "last_bases st' = last_bases st \<Longrightarrow> fresh pre st' n = fresh pre st n"
  by (simp add: fresh_def)

lemma scan_base_fresh2:
  assumes wf: "wf_state st1" "wf_state st2" and sc: "same_config st1 st2"
    and fr: "fresh pre st1 n" "fresh pre st2 n"
    and x: "x \<noteq> CHR ''N''" and th: "ring_size (last_bases st1) < length_s st1"
  shows "\<exists>st1' st2' n' out.
      scan_base st1 (int (length pre)) n (of_char x) = Some (st1', n', out)
    \<and> scan_base st2 (int (length pre)) n (of_char x) = Some (st2', n', out)
    \<and> wf_state st1' \<and> wf_state st2'
    \<and> same_config st1' st1 \<and> same_config st2' st2
    \<and> fresh (pre @ [x]) st1' n' \<and> fresh (pre @ [x]) st2' n'"
proof -
  let ?R = "ring_size (last_bases st1)"
  let ?p = "int (length pre)"
  from sc have R2: "ring_size (last_bases st2) = ?R"
    by (simp add: same_config_def)
  consider (fill) "n < ?R - 1" | (boundary) "n = ?R - 1" | (compare) "?R \<le> n"
    by linarith
  then show ?thesis
  proof cases
    case fill
    have p0: "0 \<le> ?p"
      by simp
    from wf_state_write [OF wf(1) p0, of "of_char x"] obtain rg1 where
      w1: "write_ring (last_bases st1) ?p (of_char x) = Some rg1"
      and rg1: "rg1 = (last_bases st1)\<lparr>elements :=
          (elements (last_bases st1))[nat (?p mod ?R) := x]\<rparr>"
      and wf1: "wf_state (st1\<lparr>last_bases := rg1\<rparr>)"
      by (auto simp: int_to_char_of_char)
    from wf_state_write [OF wf(2) p0, of "of_char x"] obtain rg2 where
      w2: "write_ring (last_bases st2) ?p (of_char x) = Some rg2"
      and rg2: "rg2 = (last_bases st2)\<lparr>elements :=
          (elements (last_bases st2))[nat (?p mod ring_size (last_bases st2)) := x]\<rparr>"
      and wf2: "wf_state (st2\<lparr>last_bases := rg2\<rparr>)"
      by (auto simp: int_to_char_of_char)
    from fr(1) have n0: "0 \<le> n"
      by (simp add: fresh_def Let_def)
    with fill have n': "0 \<le> n + 1" "n + 1 \<le> n + 1" "n + 1 \<le> ?R"
      by simp_all
    have f1: "fresh (pre @ [x]) (st1\<lparr>last_bases := rg1\<rparr>) (n + 1)"
      using fresh_write(1) [OF wf(1) fr(1) x n' rg1] .
    have f2: "fresh (pre @ [x]) (st2\<lparr>last_bases := rg2\<rparr>) (n + 1)"
      using fresh_write(1) [OF wf(2) fr(2) x, of "n + 1" rg2] n' rg2 unfolding R2 by simp
    have s1: "scan_base st1 ?p n (of_char x) = Some (st1\<lparr>last_bases := rg1\<rparr>, n + 1, [])"
      using fill w1 by (simp add: scan_base_def Let_def)
    have s2: "scan_base st2 ?p n (of_char x) = Some (st2\<lparr>last_bases := rg2\<rparr>, n + 1, [])"
      using fill w2 R2 by (simp add: scan_base_def Let_def)
    have c1: "same_config (st1\<lparr>last_bases := rg1\<rparr>) st1"
      by (simp add: same_config_def rg1)
    have c2: "same_config (st2\<lparr>last_bases := rg2\<rparr>) st2"
      by (simp add: same_config_def rg2)
    from s1 s2 wf1 wf2 c1 c2 f1 f2 show ?thesis
      by (intro exI conjI)
  next
    case boundary
    then have n: "?R - 1 \<le> n"
      by simp
    from next_n_fresh2 [OF wf sc fr x n] obtain st1' st2' n' where
      nn: "next_n st1 ?p (of_char x) = Some (st1', n')"
        "next_n st2 ?p (of_char x) = Some (st2', n')"
      and rest: "wf_state st1'" "wf_state st2'" "same_config st1' st1" "same_config st2' st2"
        "fresh (pre @ [x]) st1' n'" "fresh (pre @ [x]) st2' n'"
      by (elim exE conjE) (rule that)
    from boundary nn have "scan_base st1 ?p n (of_char x) = Some (st1', n', [])"
      and "scan_base st2 ?p n (of_char x) = Some (st2', n', [])"
      by (simp_all add: scan_base_def Let_def R2)
    with rest show ?thesis
      by (intro exI conjI)
  next
    case compare
    from compare R2 have c2: "ring_size (last_bases st2) \<le> n"
      by simp
    let ?c0 = "char_to_int (pre ! (length pre - nat ?R))"
    have rd1: "read_ring (last_bases st1) ?p = Some ?c0"
      using fresh_read(1) [OF wf(1) fr(1) compare] .
    have rd2: "read_ring (last_bases st2) ?p = Some ?c0"
      using fresh_read(1) [OF wf(2) fr(2) c2] unfolding R2 .
    from compare have q: "\<not> n < ?R - 1" "n > ?R - 1"
      by simp_all
    show ?thesis
    proof (cases "?c0 = of_char x")
      case True
      have f1: "fresh (pre @ [x]) st1 (n + 1)"
        using fresh_match [OF wf(1) fr(1) compare True x] .
      have f2: "fresh (pre @ [x]) st2 (n + 1)"
        using fresh_match [OF wf(2) fr(2) c2] True x unfolding R2 by simp
      from q rd1 rd2 True have "scan_base st1 ?p n (of_char x) = Some (st1, n + 1, [])"
        and "scan_base st2 ?p n (of_char x) = Some (st2, n + 1, [])"
        by (simp_all add: scan_base_def Let_def R2)
      with wf f1 f2 same_config_refl [of st1] same_config_refl [of st2] show ?thesis
        by (intro exI conjI)
    next
      case False
      from print_entryN_fresh2 [OF wf sc fr th] obtain s1 s2 out where
        pe: "print_entryN st1 ?p n = Some (s1, out)" "print_entryN st2 ?p n = Some (s2, out)"
        and wfs: "wf_state s1" "wf_state s2"
        and cs: "same_config s1 st1" "same_config s2 st2"
        and lb: "last_bases s1 = last_bases st1" "last_bases s2 = last_bases st2"
        by (elim exE conjE) (rule that)
      from cs sc have scs: "same_config s1 s2"
        by (simp add: same_config_def)
      from fr have frs: "fresh pre s1 n" "fresh pre s2 n"
        by (simp_all only: fresh_last_bases [OF lb(1)] fresh_last_bases [OF lb(2)])
      from compare lb have n: "ring_size (last_bases s1) - 1 \<le> n"
        by simp
      from next_n_fresh2 [OF wfs scs frs x n] obtain st1' st2' n' where
        nn: "next_n s1 ?p (of_char x) = Some (st1', n')"
          "next_n s2 ?p (of_char x) = Some (st2', n')"
        and rest: "wf_state st1'" "wf_state st2'" "same_config st1' s1" "same_config st2' s2"
          "fresh (pre @ [x]) st1' n'" "fresh (pre @ [x]) st2' n'"
        by (elim exE conjE) (rule that)
      from q rd1 rd2 False pe nn have "scan_base st1 ?p n (of_char x) = Some (st1', n', out)"
        and "scan_base st2 ?p n (of_char x) = Some (st2', n', out)"
        by (simp_all add: scan_base_def Let_def R2)
      moreover from rest(3,4) cs have "same_config st1' st1" "same_config st2' st2"
        by (simp_all add: same_config_def)
      ultimately show ?thesis
        using rest(1,2,5,6) by (intro exI conjI)
    qed
  qed
qed

lemma after_printing_Nil [simp]: "after_printing [] res = res"
  by (simp add: after_printing_def split: option.splits)

lemma after_printing_append:
  "after_printing (a @ b) res = after_printing a (after_printing b res)"
  by (simp add: after_printing_def split: option.splits)

lemma after_printing_None [simp]: "after_printing out None = None"
  by (simp add: after_printing_def)

lemma after_printing_Some [simp]:
  "after_printing out (Some (fp', st', out')) = Some (fp', st', out @ out')"
  by (simp add: after_printing_def)

lemma scan_seqN_Cons:
  "scan_seqN (x # fp) st p n =
     (if x = CHR 0x0A then scan_seqN fp st p n
      else if x = CHR ''N'' then
        (case print_entryN st p n of
           None \<Rightarrow> None
         | Some (st', out) \<Rightarrow> after_printing out (scan_seqN fp st' (p + 1) 0))
      else if x = CHR ''>'' then
        (case print_entryN st p n of
           None \<Rightarrow> None
         | Some (st', out) \<Rightarrow> Some (fp, st', out))
      else
        (case scan_base st p n (of_char x) of
           None \<Rightarrow> None
         | Some (st', n', out) \<Rightarrow> after_printing out (scan_seqN fp st' (p + 1) n')))"
  by (simp add: Let_def of_char_newline of_char_base_N of_char_header of_char_not_EOF
      after_printing_def split: option.splits)

lemma scan_prefix_Cons:
  "scan_prefix (x # xs) st p n =
     (if x = CHR 0x0A then scan_prefix xs st p n
      else if x = CHR ''N'' then
        (case print_entryN st p n of
           None \<Rightarrow> None
         | Some (st', out) \<Rightarrow>
             (case scan_prefix xs st' (p + 1) 0 of
                None \<Rightarrow> None
              | Some (st'', p'', n'', out') \<Rightarrow> Some (st'', p'', n'', out @ out')))
      else
        (case scan_base st p n (of_char x) of
           None \<Rightarrow> None
         | Some (st', n', out) \<Rightarrow>
             (case scan_prefix xs st' (p + 1) n' of
                None \<Rightarrow> None
              | Some (st'', p'', n'', out') \<Rightarrow> Some (st'', p'', n'', out @ out'))))"
  by (simp add: Let_def of_char_newline of_char_base_N)

lemma scan_seqN_prefix:
  "CHR ''>'' \<notin> set xs \<Longrightarrow>
   scan_seqN (xs @ fp) st p n =
     (case scan_prefix xs st p n of
        None \<Rightarrow> None
      | Some (st', p', n', out) \<Rightarrow> after_printing out (scan_seqN fp st' p' n'))"
proof (induction xs arbitrary: st p n)
  case Nil
  then show ?case
    by simp
next
  case (Cons x xs)
  then have IH: "\<And>st p n. scan_seqN (xs @ fp) st p n =
     (case scan_prefix xs st p n of
        None \<Rightarrow> None
      | Some (st', p', n', out) \<Rightarrow> after_printing out (scan_seqN fp st' p' n'))"
    and x: "x \<noteq> CHR ''>''"
    by auto
  show ?case
    unfolding append_Cons scan_seqN_Cons scan_prefix_Cons IH using x
    by (simp add: after_printing_append split: option.splits)
qed


lemma symbols_Nil [simp]: "symbols [] = []"
  by (simp add: symbols_def)

lemma symbols_Cons:
  "symbols (x # xs) = (if x = CHR 0x0A then symbols xs else x # symbols xs)"
  by (simp add: symbols_def)

lemma same_config_threshold:
  assumes "same_config a b" and "ring_size (last_bases b) < length_s b"
  shows "ring_size (last_bases a) < length_s a"
  using assms by (simp add: same_config_def)

lemma scan_prefix_fresh2:
  assumes th: "ring_size (last_bases st0) < length_s st0"
  shows "wf_state st1 \<Longrightarrow> wf_state st2 \<Longrightarrow> same_config st1 st0 \<Longrightarrow> same_config st2 st0 \<Longrightarrow>
    fresh pre st1 n \<Longrightarrow> fresh pre st2 n \<Longrightarrow>
    \<exists>st1' st2' n' out.
        scan_prefix xs st1 (int (length pre)) n =
          Some (st1', int (length (pre @ symbols xs)), n', out)
      \<and> scan_prefix xs st2 (int (length pre)) n =
          Some (st2', int (length (pre @ symbols xs)), n', out)
      \<and> wf_state st1' \<and> wf_state st2'
      \<and> same_config st1' st0 \<and> same_config st2' st0
      \<and> fresh (pre @ symbols xs) st1' n' \<and> fresh (pre @ symbols xs) st2' n'"
proof (induction xs arbitrary: pre st1 st2 n)
  case Nil
  then show ?case
    by simp
next
  case (Cons x xs)
  note wf = Cons.prems(1,2) and sc = Cons.prems(3,4) and fr = Cons.prems(5,6)
  from sc have sc12: "same_config st1 st2"
    by (simp add: same_config_def)
  note th1 = same_config_threshold [OF sc(1) th]
  show ?case
  proof (cases "x = CHR 0x0A")
    case True
    with Cons.IH [OF wf sc fr] show ?thesis
      by (simp add: scan_prefix_Cons symbols_Cons del: scan_prefix.simps)
  next
    case nl: False
    have len: "int (length (pre @ [x])) = int (length pre) + 1"
      and app: "(pre @ [x]) @ symbols xs = pre @ x # symbols xs"
      by simp_all
    show ?thesis
    proof (cases "x = CHR ''N''")
      case True
      from print_entryN_fresh2 [OF wf sc12 fr th1] obtain s1 s2 out where
        pe: "print_entryN st1 (int (length pre)) n = Some (s1, out)"
          "print_entryN st2 (int (length pre)) n = Some (s2, out)"
        and wfs: "wf_state s1" "wf_state s2"
        and cs: "same_config s1 st1" "same_config s2 st2"
        by (elim exE conjE) (rule that)
      from cs sc have scs: "same_config s1 st0" "same_config s2 st0"
        by (simp_all add: same_config_def)
      from Cons.IH [OF wfs scs fresh_break fresh_break, of pre x] obtain st1' st2' n' out' where
        sp: "scan_prefix xs s1 (int (length pre) + 1) 0 =
            Some (st1', int (length (pre @ x # symbols xs)), n', out')"
          "scan_prefix xs s2 (int (length pre) + 1) 0 =
            Some (st2', int (length (pre @ x # symbols xs)), n', out')"
        and rest: "wf_state st1'" "wf_state st2'" "same_config st1' st0" "same_config st2' st0"
          "fresh (pre @ x # symbols xs) st1' n'" "fresh (pre @ x # symbols xs) st2' n'"
        unfolding len app by (elim exE conjE) (rule that)
      from nl True pe sp have
        "scan_prefix (x # xs) st1 (int (length pre)) n =
            Some (st1', int (length (pre @ symbols (x # xs))), n', out @ out')"
        "scan_prefix (x # xs) st2 (int (length pre)) n =
            Some (st2', int (length (pre @ symbols (x # xs))), n', out @ out')"
        by (simp_all add: scan_prefix_Cons symbols_Cons del: scan_prefix.simps)
      moreover from nl rest have "fresh (pre @ symbols (x # xs)) st1' n'"
        "fresh (pre @ symbols (x # xs)) st2' n'"
        by (simp_all add: symbols_Cons)
      ultimately show ?thesis
        using rest(1-4) by (intro exI conjI)
    next
      case nN: False
      from scan_base_fresh2 [OF wf sc12 fr nN th1] obtain s1 s2 m out where
        sb: "scan_base st1 (int (length pre)) n (of_char x) = Some (s1, m, out)"
          "scan_base st2 (int (length pre)) n (of_char x) = Some (s2, m, out)"
        and wfs: "wf_state s1" "wf_state s2"
        and cs: "same_config s1 st1" "same_config s2 st2"
        and frs: "fresh (pre @ [x]) s1 m" "fresh (pre @ [x]) s2 m"
        by (elim exE conjE) (rule that)
      from cs sc have scs: "same_config s1 st0" "same_config s2 st0"
        by (simp_all add: same_config_def)
      from Cons.IH [OF wfs scs frs] obtain st1' st2' n' out' where
        sp: "scan_prefix xs s1 (int (length pre) + 1) m =
            Some (st1', int (length (pre @ x # symbols xs)), n', out')"
          "scan_prefix xs s2 (int (length pre) + 1) m =
            Some (st2', int (length (pre @ x # symbols xs)), n', out')"
        and rest: "wf_state st1'" "wf_state st2'" "same_config st1' st0" "same_config st2' st0"
          "fresh (pre @ x # symbols xs) st1' n'" "fresh (pre @ x # symbols xs) st2' n'"
        unfolding len app by (elim exE conjE) (rule that)
      from nl nN sb sp have
        "scan_prefix (x # xs) st1 (int (length pre)) n =
            Some (st1', int (length (pre @ symbols (x # xs))), n', out @ out')"
        "scan_prefix (x # xs) st2 (int (length pre)) n =
            Some (st2', int (length (pre @ symbols (x # xs))), n', out @ out')"
        by (simp_all add: scan_prefix_Cons symbols_Cons del: scan_prefix.simps)
      moreover from nl rest have "fresh (pre @ symbols (x # xs)) st1' n'"
        "fresh (pre @ symbols (x # xs)) st2' n'"
        by (simp_all add: symbols_Cons)
      ultimately show ?thesis
        using rest(1-4) by (intro exI conjI)
    qed
  qed
qed

lemma scan_seqN_fresh2:
  assumes th: "ring_size (last_bases st0) < length_s st0"
  shows "wf_state st1 \<Longrightarrow> wf_state st2 \<Longrightarrow> same_config st1 st0 \<Longrightarrow> same_config st2 st0 \<Longrightarrow>
    fresh pre st1 n \<Longrightarrow> fresh pre st2 n \<Longrightarrow>
    \<exists>fp' st1' st2' out.
        scan_seqN fp st1 (int (length pre)) n = Some (fp', st1', out)
      \<and> scan_seqN fp st2 (int (length pre)) n = Some (fp', st2', out)"
proof (induction fp arbitrary: pre st1 st2 n)
  case Nil
  note wf = Nil.prems(1,2) and sc = Nil.prems(3,4) and fr = Nil.prems(5,6)
  from sc have sc12: "same_config st1 st2"
    by (simp add: same_config_def)
  note th1 = same_config_threshold [OF sc(1) th]
  from print_entryN_fresh2 [OF wf sc12 fr th1] obtain s1 s2 out where
    "print_entryN st1 (int (length pre)) n = Some (s1, out)"
    "print_entryN st2 (int (length pre)) n = Some (s2, out)"
    by (elim exE conjE) (rule that)
  then show ?case
    by simp
next
  case (Cons x fp)
  note wf = Cons.prems(1,2) and sc = Cons.prems(3,4) and fr = Cons.prems(5,6)
  from sc have sc12: "same_config st1 st2"
    by (simp add: same_config_def)
  note th1 = same_config_threshold [OF sc(1) th]
  have len: "int (length (pre @ [x])) = int (length pre) + 1"
    by simp
  show ?case
  proof (cases "x = CHR 0x0A")
    case True
    with Cons.IH [OF wf sc fr] show ?thesis
      by (simp add: scan_seqN_Cons del: scan_seqN.simps)
  next
    case nl: False
    show ?thesis
    proof (cases "x = CHR ''N'' \<or> x = CHR ''>''")
      case True
      from print_entryN_fresh2 [OF wf sc12 fr th1] obtain s1 s2 out where
        pe: "print_entryN st1 (int (length pre)) n = Some (s1, out)"
          "print_entryN st2 (int (length pre)) n = Some (s2, out)"
        and wfs: "wf_state s1" "wf_state s2"
        and cs: "same_config s1 st1" "same_config s2 st2"
        by (elim exE conjE) (rule that)
      from cs sc have scs: "same_config s1 st0" "same_config s2 st0"
        by (simp_all add: same_config_def)
      from Cons.IH [OF wfs scs fresh_break fresh_break, of pre x] obtain fp' st1' st2' out' where
        "scan_seqN fp s1 (int (length pre) + 1) 0 = Some (fp', st1', out')"
        "scan_seqN fp s2 (int (length pre) + 1) 0 = Some (fp', st2', out')"
        unfolding len by (elim exE conjE) (rule that)
      with nl True pe show ?thesis
        by (auto simp add: scan_seqN_Cons simp del: scan_seqN.simps)
    next
      case False
      then have nN: "x \<noteq> CHR ''N''" and nh: "x \<noteq> CHR ''>''"
        by simp_all
      from scan_base_fresh2 [OF wf sc12 fr nN th1] obtain s1 s2 m out where
        sb: "scan_base st1 (int (length pre)) n (of_char x) = Some (s1, m, out)"
          "scan_base st2 (int (length pre)) n (of_char x) = Some (s2, m, out)"
        and wfs: "wf_state s1" "wf_state s2"
        and cs: "same_config s1 st1" "same_config s2 st2"
        and frs: "fresh (pre @ [x]) s1 m" "fresh (pre @ [x]) s2 m"
        by (elim exE conjE) (rule that)
      from cs sc have scs: "same_config s1 st0" "same_config s2 st0"
        by (simp_all add: same_config_def)
      from Cons.IH [OF wfs scs frs] obtain fp' st1' st2' out' where
        "scan_seqN fp s1 (int (length pre) + 1) m = Some (fp', st1', out')"
        "scan_seqN fp s2 (int (length pre) + 1) m = Some (fp', st2', out')"
        unfolding len by (elim exE conjE) (rule that)
      with nl nN nh sb show ?thesis
        by (simp add: scan_seqN_Cons del: scan_seqN.simps)
    qed
  qed
qed

section \<open>The validator and the window\<close>

text \<open>
  The validators read the ring slot by slot. Each of them returns 1 exactly if the
  window (the last period symbols, oldest first) is degenerate in the words of the
  specification, whatever the position of the oldest slot.
\<close>

lemma ring_unit2:
  "ring_size rg = 2 \<Longrightarrow> ring_unit rg off =
     [elements rg ! nat (off mod 2), elements rg ! nat ((1 + off) mod 2)]"
  by (simp add: ring_unit_def eval_nat_numeral upt_rec)

lemma ring_unit3:
  "ring_size rg = 3 \<Longrightarrow> ring_unit rg off =
     [elements rg ! nat (off mod 3), elements rg ! nat ((1 + off) mod 3),
      elements rg ! nat ((2 + off) mod 3)]"
  by (simp add: ring_unit_def eval_nat_numeral upt_rec)

lemma ring_unit4:
  "ring_size rg = 4 \<Longrightarrow> ring_unit rg off =
     [elements rg ! nat (off mod 4), elements rg ! nat ((1 + off) mod 4),
      elements rg ! nat ((2 + off) mod 4), elements rg ! nat ((3 + off) mod 4)]"
  by (simp add: ring_unit_def eval_nat_numeral upt_rec)

lemma int_mod4_cases: "0 \<le> (m::int) \<Longrightarrow> m mod 4 = 0 \<or> m mod 4 = 1 \<or> m mod 4 = 2 \<or> m mod 4 = 3"
  by presburger

lemma int_mod3_cases: "0 \<le> (m::int) \<Longrightarrow> m mod 3 = 0 \<or> m mod 3 = 1 \<or> m mod 3 = 2"
  by presburger

lemma int_mod2_cases: "0 \<le> (m::int) \<Longrightarrow> m mod 2 = 0 \<or> m mod 2 = 1"
  by presburger

text \<open>The call through the function pointer is the validator of the state's period, and
  what it returns is the degeneracy of the window, as the specification words it.\<close>

lemma call_invalid_repeat_window:
  assumes wf: "wf_state st"
  shows "call_invalid_repeat st =
    Some (if spec_degenerate (window (last_bases st) p) then 1 else 0)"
proof -
  let ?rg = "last_bases st"
  have m: "(p + 1) mod 4 mod 4 = (p + 1) mod 4" "(p + 1) mod 3 mod 3 = (p + 1) mod 3"
    "(p + 1) mod 2 mod 2 = (p + 1) mod 2"
    by simp_all
  from wf consider
      (two) "ring_size ?rg = 2" "invalid_repeat st = Invalid_repeat2" "length (elements ?rg) = 2"
    | (three) "ring_size ?rg = 3" "invalid_repeat st = Invalid_repeat3" "length (elements ?rg) = 3"
    | (four) "ring_size ?rg = 4" "invalid_repeat st = Invalid_repeat4" "length (elements ?rg) = 4"
    by (auto simp: wf_state_def Let_def)
  then show ?thesis
  proof cases
    case two
    from list2 [OF two(3)] obtain x0 x1 where e: "elements ?rg = [x0, x1]"
      by blast
    have "(p + 1) mod 2 = 0 \<or> (p + 1) mod 2 = 1"
      by presburger
    then show ?thesis
      by (elim disjE)
        (auto simp: call_invalid_repeat_def two invalid_repeat2_def window_def ring_unit2 e
          spec_degenerate_def mod_add_right_eq)
  next
    case three
    from list3 [OF three(3)] obtain x0 x1 x2 where e: "elements ?rg = [x0, x1, x2]"
      by blast
    have "(p + 1) mod 3 = 0 \<or> (p + 1) mod 3 = 1 \<or> (p + 1) mod 3 = 2"
      by presburger
    then show ?thesis
      by (elim disjE)
        (auto simp: call_invalid_repeat_def three invalid_repeat3_def window_def ring_unit3 e
          spec_degenerate_def mod_add_right_eq)
  next
    case four
    from list4 [OF four(3)] obtain x0 x1 x2 x3 where e: "elements ?rg = [x0, x1, x2, x3]"
      by blast
    have "(p + 1) mod 4 = 0 \<or> (p + 1) mod 4 = 1 \<or> (p + 1) mod 4 = 2 \<or> (p + 1) mod 4 = 3"
      by presburger
    then show ?thesis
      by (elim disjE)
        (auto simp: call_invalid_repeat_def four invalid_repeat4_def window_def ring_unit4 e
          spec_degenerate_def mod_add_right_eq)
  qed
qed


lemma call_invalid_repeat_period:
  assumes "wf_state st"
  shows "call_invalid_repeat st =
    (if ring_size (last_bases st) = 2 then invalid_repeat2 st
     else if ring_size (last_bases st) = 3 then invalid_repeat3 st
     else invalid_repeat4 st)"
  using assms by (auto simp: wf_state_def Let_def call_invalid_repeat_def)

lemma written_simps [simp]:
  "ring_size (written rg p c) = ring_size rg"
  "elements (written rg p c) = (elements rg)[nat (p mod ring_size rg) := int_to_char c]"
  by (simp_all add: written_def)

lemma write_ring_written:
  assumes "wf_state st" and "0 \<le> p"
  shows "write_ring (last_bases st) p c = Some (written (last_bases st) p c)"
    and "wf_state (st\<lparr>last_bases := written (last_bases st) p c\<rparr>)"
  using wf_state_write [OF assms, of c] by (auto simp: written_def)

lemma next_n_window:
  assumes wf: "wf_state st" and p: "0 \<le> p"
  shows "next_n st p c =
    Some (st\<lparr>last_bases := written (last_bases st) p c\<rparr>,
          if spec_degenerate (window (written (last_bases st) p c) p)
          then ring_size (last_bases st) - 1 else ring_size (last_bases st))"
proof -
  let ?st' = "st\<lparr>last_bases := written (last_bases st) p c\<rparr>"
  note w = write_ring_written [OF wf p, of c]
  from call_invalid_repeat_window [OF w(2), of p]
  have "call_invalid_repeat ?st' =
      Some (if spec_degenerate (window (written (last_bases st) p c) p) then 1 else 0)"
    by simp
  with w(1) show ?thesis
    by (simp add: next_n_def Let_def)
qed

lemma scan_base_fill:
  assumes "wf_state st" and "0 \<le> p" and "n < ring_size (last_bases st) - 1"
  shows "scan_base st p n c = Some (st\<lparr>last_bases := written (last_bases st) p c\<rparr>, n + 1, [])"
  using assms(3) write_ring_written(1) [OF assms(1,2), of c]
  by (simp add: scan_base_def Let_def)

lemma scan_base_boundary:
  assumes "wf_state st" and "0 \<le> p" and "n = ring_size (last_bases st) - 1"
  shows "scan_base st p n c =
    Some (st\<lparr>last_bases := written (last_bases st) p c\<rparr>,
          if spec_degenerate (window (written (last_bases st) p c) p)
          then ring_size (last_bases st) - 1 else ring_size (last_bases st), [])"
  using assms(3) next_n_window [OF assms(1,2), of c]
  by (simp add: scan_base_def Let_def)

lemma scan_base_match:
  assumes "n > ring_size (last_bases st) - 1" and "read_ring (last_bases st) p = Some c"
  shows "scan_base st p n c = Some (st, n + 1, [])"
  using assms by (simp add: scan_base_def Let_def)

lemma scan_base_mismatch:
  assumes wf: "wf_state st" and n: "ring_size (last_bases st) \<le> n" "n \<le> p"
    and rd: "read_ring (last_bases st) p = Some c0" "c0 \<noteq> c"
    and pe: "print_entryN st p n = Some (st1, out)"
  shows "scan_base st p n c =
    Some (st1\<lparr>last_bases := written (last_bases st) p c\<rparr>,
          if spec_degenerate (window (written (last_bases st) p c) p)
          then ring_size (last_bases st) - 1 else ring_size (last_bases st), out)"
proof -
  from n wf_stateD(4) [OF wf] have p: "0 \<le> p" and q: "\<not> n < ring_size (last_bases st) - 1"
    "n > ring_size (last_bases st) - 1"
    by simp_all
  from print_entryN_wf_state [OF wf n(2) pe]
  have wf1: "wf_state st1" and lb: "last_bases st1 = last_bases st"
    by simp_all
  from next_n_window [OF wf1 p, of c] lb q rd pe show ?thesis
    by (simp add: scan_base_def Let_def)
qed

section \<open>The steps of the period-N scanner\<close>

text \<open>
  C1. Period-N comparison phase. In a well-formed state with \<open>n\<close> at least the period
  (and at most the position \<open>p\<close>, as it always is), the step for a symbol \<open>c\<close> reads
  the slot \<open>p mod period\<close>. If the value read equals \<open>c\<close>, the step adds exactly 1 to
  \<open>n\<close>, prints nothing and leaves the whole state, so the buffer, as it was. If it
  differs, the step first hands the run (end position \<open>p\<close>, length \<open>n\<close>) to
  \<^verbatim>\<open>print_entryN\<close>, which prints one record when \<open>n\<close> reaches the threshold and
  nothing otherwise and does not touch the ring; then it writes \<open>c\<close> into the slot
  \<open>p mod period\<close> and calls the validator of the period on the new window. The
  validator returns 1 exactly if the window that now ends with \<open>c\<close> is degenerate
  (period 2: both symbols equal; period 3: all three equal; period 4: the two halves
  equal), and the step makes \<open>n\<close> the period minus one in that case and the period
  otherwise.
\<close>

theorem comparison_phase:
  assumes "wf_state st" and "ring_size (last_bases st) \<le> n" and "n \<le> p"
  shows "\<exists>c0. read_ring (last_bases st) p = Some c0
      \<and> c0 = char_to_int (elements (last_bases st) ! nat (p mod ring_size (last_bases st)))
      \<and> (c0 = c \<longrightarrow> scan_base st p n c = Some (st, n + 1, []))
      \<and> (c0 \<noteq> c \<longrightarrow>
           (\<exists>st1 out rg.
               print_entryN st p n = Some (st1, out)
             \<and> out = (if length_s st \<le> n
                      then [print_entry (chr st) p n (unit_buffer st1)] else [])
             \<and> last_bases st1 = last_bases st
             \<and> write_ring (last_bases st1) p c = Some rg
             \<and> ring_size rg = ring_size (last_bases st)
             \<and> elements rg =
                 (elements (last_bases st))[nat (p mod ring_size (last_bases st)) := int_to_char c]
             \<and> call_invalid_repeat (st1\<lparr>last_bases := rg\<rparr>) =
                 (if ring_size rg = 2 then invalid_repeat2 (st1\<lparr>last_bases := rg\<rparr>)
                  else if ring_size rg = 3 then invalid_repeat3 (st1\<lparr>last_bases := rg\<rparr>)
                  else invalid_repeat4 (st1\<lparr>last_bases := rg\<rparr>))
             \<and> call_invalid_repeat (st1\<lparr>last_bases := rg\<rparr>) =
                 Some (if spec_degenerate (window rg p) then 1 else 0)
             \<and> scan_base st p n c =
                 Some (st1\<lparr>last_bases := rg\<rparr>,
                       if spec_degenerate (window rg p)
                       then ring_size (last_bases st) - 1 else ring_size (last_bases st),
                       out)))"
proof -
  let ?r = "ring_size (last_bases st)"
  let ?c0 = "char_to_int (elements (last_bases st) ! nat (p mod ?r))"
  let ?rg = "written (last_bases st) p c"
  from assms have r: "0 < ?r" and p: "0 \<le> p" and q: "n > ?r - 1"
    using wf_stateD(4) [OF assms(1)] by simp_all
  have rd: "read_ring (last_bases st) p = Some ?c0"
    using read_ring_slot [OF r wf_stateD(1) [OF assms(1)] p] .
  have same: "scan_base st p n c = Some (st, n + 1, [])" if "?c0 = c"
    using scan_base_match [OF q, of p c] rd that by simp
  have diff: "\<exists>st1 out rg.
               print_entryN st p n = Some (st1, out)
             \<and> out = (if length_s st \<le> n
                      then [print_entry (chr st) p n (unit_buffer st1)] else [])
             \<and> last_bases st1 = last_bases st
             \<and> write_ring (last_bases st1) p c = Some rg
             \<and> ring_size rg = ?r
             \<and> elements rg = (elements (last_bases st))[nat (p mod ?r) := int_to_char c]
             \<and> call_invalid_repeat (st1\<lparr>last_bases := rg\<rparr>) =
                 (if ring_size rg = 2 then invalid_repeat2 (st1\<lparr>last_bases := rg\<rparr>)
                  else if ring_size rg = 3 then invalid_repeat3 (st1\<lparr>last_bases := rg\<rparr>)
                  else invalid_repeat4 (st1\<lparr>last_bases := rg\<rparr>))
             \<and> call_invalid_repeat (st1\<lparr>last_bases := rg\<rparr>) =
                 Some (if spec_degenerate (window rg p) then 1 else 0)
             \<and> scan_base st p n c =
                 Some (st1\<lparr>last_bases := rg\<rparr>,
                       if spec_degenerate (window rg p) then ?r - 1 else ?r, out)"
    if ne: "?c0 \<noteq> c"
  proof -
    obtain st1 out where pe: "print_entryN st p n = Some (st1, out)"
      and out: "out = (if length_s st \<le> n
                      then [print_entry (chr st) p n (unit_buffer st1)] else [])"
      by (cases "length_s st \<le> n") (simp_all add: print_entryN_wf [OF assms(1,3)])
    from print_entryN_wf_state [OF assms(1,3) pe]
    have wf1: "wf_state st1" and lb1: "last_bases st1 = last_bases st"
      by simp_all
    note w = write_ring_written [OF wf1 p, of c, unfolded lb1]
    have a: "write_ring (last_bases st1) p c = Some ?rg"
      using w(1) lb1 by simp
    have b: "call_invalid_repeat (st1\<lparr>last_bases := ?rg\<rparr>) =
        (if ring_size ?rg = 2 then invalid_repeat2 (st1\<lparr>last_bases := ?rg\<rparr>)
         else if ring_size ?rg = 3 then invalid_repeat3 (st1\<lparr>last_bases := ?rg\<rparr>)
         else invalid_repeat4 (st1\<lparr>last_bases := ?rg\<rparr>))"
      using call_invalid_repeat_period [OF w(2)] by simp
    have c: "call_invalid_repeat (st1\<lparr>last_bases := ?rg\<rparr>) =
        Some (if spec_degenerate (window ?rg p) then 1 else 0)"
      using call_invalid_repeat_window [OF w(2), of p] by simp
    have d: "scan_base st p n c =
        Some (st1\<lparr>last_bases := ?rg\<rparr>, if spec_degenerate (window ?rg p) then ?r - 1 else ?r, out)"
      using scan_base_mismatch [OF assms rd ne pe] .
    have e: "ring_size ?rg = ?r"
      "elements ?rg = (elements (last_bases st))[nat (p mod ?r) := int_to_char c]"
      by simp_all
    from pe out lb1 a e b c d show ?thesis
      by (intro exI conjI)
  qed
  from rd same diff show ?thesis
    by blast
qed

theorem comparison_phase_witness:
  "wf_state (example_state 2 Invalid_repeat2 ''AT'' 4)
   \<and> ring_size (last_bases (example_state 2 Invalid_repeat2 ''AT'' 4)) \<le> 4
   \<and> scan_base (example_state 2 Invalid_repeat2 ''AT'' 4) 4 4 65 =
       Some (example_state 2 Invalid_repeat2 ''AT'' 4, 5, [])
   \<and> scan_base (example_state 2 Invalid_repeat2 ''AT'' 4) 4 4 71 =
       Some ((example_state 2 Invalid_repeat2 ''GT'' 4)\<lparr>unit_buffer := ''AT'' @ [CHR 0x00]\<rparr>,
             2, [Entry ''chr1'' 0 4 ''AT''])
   \<and> scan_base (example_state 2 Invalid_repeat2 ''AT'' 4) 4 4 84 =
       Some ((example_state 2 Invalid_repeat2 ''TT'' 4)\<lparr>unit_buffer := ''AT'' @ [CHR 0x00]\<rparr>,
             1, [Entry ''chr1'' 0 4 ''AT''])
   \<and> wf_state (example_state 3 Invalid_repeat3 ''CAA'' 6)
   \<and> ring_size (last_bases (example_state 3 Invalid_repeat3 ''CAA'' 6)) \<le> 3
   \<and> scan_base (example_state 3 Invalid_repeat3 ''CAA'' 6) 3 3 65 =
       Some (example_state 3 Invalid_repeat3 ''AAA'' 6, 2, [])
   \<and> scan_base (example_state 3 Invalid_repeat3 ''CAA'' 6) 3 3 71 =
       Some (example_state 3 Invalid_repeat3 ''GAA'' 6, 3, [])
   \<and> wf_state (example_state 4 Invalid_repeat4 ''TCAC'' 8)
   \<and> ring_size (last_bases (example_state 4 Invalid_repeat4 ''TCAC'' 8)) \<le> 4
   \<and> scan_base (example_state 4 Invalid_repeat4 ''TCAC'' 8) 4 4 65 =
       Some (example_state 4 Invalid_repeat4 ''ACAC'' 8, 3, [])"
proof -
  let ?st = "example_state 2 Invalid_repeat2 ''AT'' 4"
  let ?s3 = "example_state 3 Invalid_repeat3 ''CAA'' 6"
  let ?s4 = "example_state 4 Invalid_repeat4 ''TCAC'' 8"
  have wf: "wf_state ?st" and wf3: "wf_state ?s3" and wf4: "wf_state ?s4"
    by code_simp+
  have le: "ring_size (last_bases ?st) \<le> 4" and le3: "ring_size (last_bases ?s3) \<le> 3"
    and le4: "ring_size (last_bases ?s4) \<le> 4"
    by code_simp+
  have np: "(4::int) \<le> 4" "(3::int) \<le> 3"
    by simp_all
  have rd: "read_ring (last_bases ?st) 4 = Some 65"
    and rd3: "read_ring (last_bases ?s3) 3 = Some 67"
    and rd4: "read_ring (last_bases ?s4) 4 = Some 84"
    by code_simp+
  have r2: "ring_size (last_bases ?st) = 2" and r3: "ring_size (last_bases ?s3) = 3"
    and r4: "ring_size (last_bases ?s4) = 4"
    by code_simp+
  from comparison_phase [OF wf le np(1), of 65] rd
  have a: "scan_base ?st 4 4 65 = Some (?st, 5, [])"
    by auto
  have pe: "print_entryN ?st 4 4 =
      Some (?st\<lparr>unit_buffer := ''AT'' @ [CHR 0x00]\<rparr>, [Entry ''chr1'' 0 4 ''AT''])"
    and pe3: "print_entryN ?s3 3 3 = Some (?s3, [])"
    and pe4: "print_entryN ?s4 4 4 = Some (?s4, [])"
    by code_simp+
  have wrG: "write_ring (last_bases (?st\<lparr>unit_buffer := ''AT'' @ [CHR 0x00]\<rparr>)) 4 71 =
      Some \<lparr>ring_size = 2, elements = ''GT''\<rparr>"
    and wrT: "write_ring (last_bases (?st\<lparr>unit_buffer := ''AT'' @ [CHR 0x00]\<rparr>)) 4 84 =
      Some \<lparr>ring_size = 2, elements = ''TT''\<rparr>"
    and wr3A: "write_ring (last_bases ?s3) 3 65 = Some \<lparr>ring_size = 3, elements = ''AAA''\<rparr>"
    and wr3G: "write_ring (last_bases ?s3) 3 71 = Some \<lparr>ring_size = 3, elements = ''GAA''\<rparr>"
    and wr4: "write_ring (last_bases ?s4) 4 65 = Some \<lparr>ring_size = 4, elements = ''ACAC''\<rparr>"
    by code_simp+
  have dG: "\<not> spec_degenerate (window \<lparr>ring_size = 2, elements = ''GT''\<rparr> 4)"
    and dT: "spec_degenerate (window \<lparr>ring_size = 2, elements = ''TT''\<rparr> 4)"
    and d3A: "spec_degenerate (window \<lparr>ring_size = 3, elements = ''AAA''\<rparr> 3)"
    and d3G: "\<not> spec_degenerate (window \<lparr>ring_size = 3, elements = ''GAA''\<rparr> 3)"
    and d4: "spec_degenerate (window \<lparr>ring_size = 4, elements = ''ACAC''\<rparr> 4)"
    by code_simp+
  have eqG: "?st\<lparr>unit_buffer := ''AT'' @ [CHR 0x00], last_bases := \<lparr>ring_size = 2, elements = ''GT''\<rparr>\<rparr> =
      (example_state 2 Invalid_repeat2 ''GT'' 4)\<lparr>unit_buffer := ''AT'' @ [CHR 0x00]\<rparr>"
    and eqT: "?st\<lparr>unit_buffer := ''AT'' @ [CHR 0x00], last_bases := \<lparr>ring_size = 2, elements = ''TT''\<rparr>\<rparr> =
      (example_state 2 Invalid_repeat2 ''TT'' 4)\<lparr>unit_buffer := ''AT'' @ [CHR 0x00]\<rparr>"
    and eq3A: "?s3\<lparr>last_bases := \<lparr>ring_size = 3, elements = ''AAA''\<rparr>\<rparr> =
      example_state 3 Invalid_repeat3 ''AAA'' 6"
    and eq3G: "?s3\<lparr>last_bases := \<lparr>ring_size = 3, elements = ''GAA''\<rparr>\<rparr> =
      example_state 3 Invalid_repeat3 ''GAA'' 6"
    and eq4: "?s4\<lparr>last_bases := \<lparr>ring_size = 4, elements = ''ACAC''\<rparr>\<rparr> =
      example_state 4 Invalid_repeat4 ''ACAC'' 8"
    by (simp_all add: example_state_def)
  have b: "scan_base ?st 4 4 71 =
      Some ((example_state 2 Invalid_repeat2 ''GT'' 4)\<lparr>unit_buffer := ''AT'' @ [CHR 0x00]\<rparr>,
            2, [Entry ''chr1'' 0 4 ''AT''])"
  proof -
    from comparison_phase [OF wf le np(1), of 71] rd obtain st1 out rg where
      f1: "print_entryN ?st 4 4 = Some (st1, out)"
      and f2: "write_ring (last_bases st1) 4 71 = Some rg"
      and f4: "scan_base ?st 4 4 71 =
        Some (st1\<lparr>last_bases := rg\<rparr>,
              if spec_degenerate (window rg 4)
              then ring_size (last_bases ?st) - 1 else ring_size (last_bases ?st), out)"
      by auto
    from f1 pe have s1: "st1 = ?st\<lparr>unit_buffer := ''AT'' @ [CHR 0x00]\<rparr>"
      and s2: "out = [Entry ''chr1'' 0 4 ''AT'']"
      by simp_all
    from f2 wrG have s3: "rg = \<lparr>ring_size = 2, elements = ''GT''\<rparr>"
      unfolding s1 by simp
    from f4 dG show ?thesis
      unfolding s1 s2 s3 r2 eqG by simp
  qed
  have c: "scan_base ?st 4 4 84 =
      Some ((example_state 2 Invalid_repeat2 ''TT'' 4)\<lparr>unit_buffer := ''AT'' @ [CHR 0x00]\<rparr>,
            1, [Entry ''chr1'' 0 4 ''AT''])"
  proof -
    from comparison_phase [OF wf le np(1), of 84] rd obtain st1 out rg where
      f1: "print_entryN ?st 4 4 = Some (st1, out)"
      and f2: "write_ring (last_bases st1) 4 84 = Some rg"
      and f4: "scan_base ?st 4 4 84 =
        Some (st1\<lparr>last_bases := rg\<rparr>,
              if spec_degenerate (window rg 4)
              then ring_size (last_bases ?st) - 1 else ring_size (last_bases ?st), out)"
      by auto
    from f1 pe have s1: "st1 = ?st\<lparr>unit_buffer := ''AT'' @ [CHR 0x00]\<rparr>"
      and s2: "out = [Entry ''chr1'' 0 4 ''AT'']"
      by simp_all
    from f2 wrT have s3: "rg = \<lparr>ring_size = 2, elements = ''TT''\<rparr>"
      unfolding s1 by simp
    from f4 dT show ?thesis
      unfolding s1 s2 s3 r2 eqT by simp
  qed
  have d: "scan_base ?s3 3 3 65 = Some (example_state 3 Invalid_repeat3 ''AAA'' 6, 2, [])"
  proof -
    from comparison_phase [OF wf3 le3 np(2), of 65] rd3 obtain st1 out rg where
      f1: "print_entryN ?s3 3 3 = Some (st1, out)"
      and f2: "write_ring (last_bases st1) 3 65 = Some rg"
      and f4: "scan_base ?s3 3 3 65 =
        Some (st1\<lparr>last_bases := rg\<rparr>,
              if spec_degenerate (window rg 3)
              then ring_size (last_bases ?s3) - 1 else ring_size (last_bases ?s3), out)"
      by auto
    from f1 pe3 have s1: "st1 = ?s3" and s2: "out = []"
      by simp_all
    from f2 wr3A have s3: "rg = \<lparr>ring_size = 3, elements = ''AAA''\<rparr>"
      unfolding s1 by simp
    from f4 d3A show ?thesis
      unfolding s1 s2 s3 r3 eq3A by simp
  qed
  have e: "scan_base ?s3 3 3 71 = Some (example_state 3 Invalid_repeat3 ''GAA'' 6, 3, [])"
  proof -
    from comparison_phase [OF wf3 le3 np(2), of 71] rd3 obtain st1 out rg where
      f1: "print_entryN ?s3 3 3 = Some (st1, out)"
      and f2: "write_ring (last_bases st1) 3 71 = Some rg"
      and f4: "scan_base ?s3 3 3 71 =
        Some (st1\<lparr>last_bases := rg\<rparr>,
              if spec_degenerate (window rg 3)
              then ring_size (last_bases ?s3) - 1 else ring_size (last_bases ?s3), out)"
      by auto
    from f1 pe3 have s1: "st1 = ?s3" and s2: "out = []"
      by simp_all
    from f2 wr3G have s3: "rg = \<lparr>ring_size = 3, elements = ''GAA''\<rparr>"
      unfolding s1 by simp
    from f4 d3G show ?thesis
      unfolding s1 s2 s3 r3 eq3G by simp
  qed
  have f: "scan_base ?s4 4 4 65 = Some (example_state 4 Invalid_repeat4 ''ACAC'' 8, 3, [])"
  proof -
    from comparison_phase [OF wf4 le4 np(1), of 65] rd4 obtain st1 out rg where
      f1: "print_entryN ?s4 4 4 = Some (st1, out)"
      and f2: "write_ring (last_bases st1) 4 65 = Some rg"
      and f4: "scan_base ?s4 4 4 65 =
        Some (st1\<lparr>last_bases := rg\<rparr>,
              if spec_degenerate (window rg 4)
              then ring_size (last_bases ?s4) - 1 else ring_size (last_bases ?s4), out)"
      by auto
    from f1 pe4 have s1: "st1 = ?s4" and s2: "out = []"
      by simp_all
    from f2 wr4 have s3: "rg = \<lparr>ring_size = 4, elements = ''ACAC''\<rparr>"
      unfolding s1 by simp
    from f4 d4 show ?thesis
      unfolding s1 s2 s3 r4 eq4 by simp
  qed
  from wf le a b c wf3 le3 d e wf4 le4 f show ?thesis
    by simp
qed

text \<open>
  C2, as the claim states it, fails in its last part: the boundary step is not the only
  step that calls the validator. Here the period is 2 and \<open>n = 2\<close>, which is not
  \<open>period - 1\<close>; the slot read holds \<open>A\<close>, and the step for \<open>T\<close> ends with \<open>n = 1\<close>
  because the validator rejects the new window \<open>TT\<close>, while the step for \<open>G\<close> ends with
  \<open>n = 2\<close> because it accepts \<open>GT\<close>.
\<close>

theorem validator_outside_boundary_counterexample:
  "ring_size (last_bases (example_state 2 Invalid_repeat2 ''AT'' 4)) - 1 \<noteq> 2
   \<and> scan_base (example_state 2 Invalid_repeat2 ''AT'' 4) 2 2 84 =
       Some (example_state 2 Invalid_repeat2 ''TT'' 4, 1, [])
   \<and> call_invalid_repeat (example_state 2 Invalid_repeat2 ''TT'' 4) = Some 1
   \<and> scan_base (example_state 2 Invalid_repeat2 ''AT'' 4) 2 2 71 =
       Some (example_state 2 Invalid_repeat2 ''GT'' 4, 2, [])
   \<and> call_invalid_repeat (example_state 2 Invalid_repeat2 ''GT'' 4) = Some 0"
  by code_simp

text \<open>
  C2, amended. Boundary validation step: in a well-formed state with
  \<open>n = period - 1\<close>, the step for a symbol \<open>c\<close> at position \<open>p\<close> writes \<open>c\<close> into the
  slot \<open>p mod period\<close>, calls the validator of the period on the completed window and
  prints nothing; the validator returns 1 exactly if the window is degenerate, and
  the step makes \<open>n\<close> the period minus one in that case and the period otherwise.
  The validator is invoked in the same way, with the same effect on \<open>n\<close>, in every
  step of the comparison phase (\<open>n\<close> at least the period) whose symbol differs from
  the slot read, after the run has been handed to \<^verbatim>\<open>print_entryN\<close>. It is invoked in
  no other step: a step of the fill phase (\<open>n < period - 1\<close>) and a step of the
  comparison phase whose symbol matches give the same result whatever validator the
  state holds.
\<close>

theorem boundary_step:
  assumes "wf_state st" and "0 \<le> p"
  shows "(n = ring_size (last_bases st) - 1 \<longrightarrow>
           (\<exists>rg.
               write_ring (last_bases st) p c = Some rg
             \<and> ring_size rg = ring_size (last_bases st)
             \<and> elements rg =
                 (elements (last_bases st))[nat (p mod ring_size (last_bases st)) := int_to_char c]
             \<and> call_invalid_repeat (st\<lparr>last_bases := rg\<rparr>) =
                 (if ring_size rg = 2 then invalid_repeat2 (st\<lparr>last_bases := rg\<rparr>)
                  else if ring_size rg = 3 then invalid_repeat3 (st\<lparr>last_bases := rg\<rparr>)
                  else invalid_repeat4 (st\<lparr>last_bases := rg\<rparr>))
             \<and> call_invalid_repeat (st\<lparr>last_bases := rg\<rparr>) =
                 Some (if spec_degenerate (window rg p) then 1 else 0)
             \<and> scan_base st p n c =
                 Some (st\<lparr>last_bases := rg\<rparr>,
                       if spec_degenerate (window rg p)
                       then ring_size (last_bases st) - 1 else ring_size (last_bases st),
                       [])))
       \<and> (ring_size (last_bases st) \<le> n \<and> n \<le> p \<and> read_ring (last_bases st) p \<noteq> Some c \<longrightarrow>
           (\<exists>st1 out rg.
               print_entryN st p n = Some (st1, out)
             \<and> last_bases st1 = last_bases st
             \<and> write_ring (last_bases st1) p c = Some rg
             \<and> ring_size rg = ring_size (last_bases st)
             \<and> elements rg =
                 (elements (last_bases st))[nat (p mod ring_size (last_bases st)) := int_to_char c]
             \<and> call_invalid_repeat (st1\<lparr>last_bases := rg\<rparr>) =
                 (if ring_size rg = 2 then invalid_repeat2 (st1\<lparr>last_bases := rg\<rparr>)
                  else if ring_size rg = 3 then invalid_repeat3 (st1\<lparr>last_bases := rg\<rparr>)
                  else invalid_repeat4 (st1\<lparr>last_bases := rg\<rparr>))
             \<and> call_invalid_repeat (st1\<lparr>last_bases := rg\<rparr>) =
                 Some (if spec_degenerate (window rg p) then 1 else 0)
             \<and> scan_base st p n c =
                 Some (st1\<lparr>last_bases := rg\<rparr>,
                       if spec_degenerate (window rg p)
                       then ring_size (last_bases st) - 1 else ring_size (last_bases st),
                       out)))
       \<and> (n < ring_size (last_bases st) - 1 \<longrightarrow>
           (\<exists>rg. write_ring (last_bases st) p c = Some rg
             \<and> (\<forall>f. scan_base (st\<lparr>invalid_repeat := f\<rparr>) p n c =
                      Some (st\<lparr>invalid_repeat := f, last_bases := rg\<rparr>, n + 1, []))))
       \<and> (n > ring_size (last_bases st) - 1 \<and> read_ring (last_bases st) p = Some c \<longrightarrow>
           (\<forall>f. scan_base (st\<lparr>invalid_repeat := f\<rparr>) p n c =
                  Some (st\<lparr>invalid_repeat := f\<rparr>, n + 1, [])))"
proof (intro conjI impI)
  let ?r = "ring_size (last_bases st)"
  let ?rg = "written (last_bases st) p c"
  assume n: "n = ?r - 1"
  note w = write_ring_written [OF assms, of c]
  have b: "call_invalid_repeat (st\<lparr>last_bases := ?rg\<rparr>) =
      (if ring_size ?rg = 2 then invalid_repeat2 (st\<lparr>last_bases := ?rg\<rparr>)
       else if ring_size ?rg = 3 then invalid_repeat3 (st\<lparr>last_bases := ?rg\<rparr>)
       else invalid_repeat4 (st\<lparr>last_bases := ?rg\<rparr>))"
    using call_invalid_repeat_period [OF w(2)] by simp
  have c: "call_invalid_repeat (st\<lparr>last_bases := ?rg\<rparr>) =
      Some (if spec_degenerate (window ?rg p) then 1 else 0)"
    using call_invalid_repeat_window [OF w(2), of p] by simp
  have e: "ring_size ?rg = ?r"
    "elements ?rg = (elements (last_bases st))[nat (p mod ?r) := int_to_char c]"
    by simp_all
  from w(1) e b c scan_base_boundary [OF assms n, of c]
  show "\<exists>rg.
               write_ring (last_bases st) p c = Some rg
             \<and> ring_size rg = ?r
             \<and> elements rg = (elements (last_bases st))[nat (p mod ?r) := int_to_char c]
             \<and> call_invalid_repeat (st\<lparr>last_bases := rg\<rparr>) =
                 (if ring_size rg = 2 then invalid_repeat2 (st\<lparr>last_bases := rg\<rparr>)
                  else if ring_size rg = 3 then invalid_repeat3 (st\<lparr>last_bases := rg\<rparr>)
                  else invalid_repeat4 (st\<lparr>last_bases := rg\<rparr>))
             \<and> call_invalid_repeat (st\<lparr>last_bases := rg\<rparr>) =
                 Some (if spec_degenerate (window rg p) then 1 else 0)
             \<and> scan_base st p n c =
                 Some (st\<lparr>last_bases := rg\<rparr>,
                       if spec_degenerate (window rg p) then ?r - 1 else ?r, [])"
    by (intro exI conjI)
next
  let ?r = "ring_size (last_bases st)"
  let ?rg = "written (last_bases st) p c"
  let ?c0 = "char_to_int (elements (last_bases st) ! nat (p mod ?r))"
  assume a: "?r \<le> n \<and> n \<le> p \<and> read_ring (last_bases st) p \<noteq> Some c"
  then have n: "?r \<le> n" "n \<le> p"
    by simp_all
  have rd: "read_ring (last_bases st) p = Some ?c0"
    using read_ring_slot [OF wf_stateD(4) [OF assms(1)] wf_stateD(1) [OF assms(1)] assms(2)] .
  with a have ne: "?c0 \<noteq> c"
    by simp
  obtain st1 out where pe: "print_entryN st p n = Some (st1, out)"
    by (cases "length_s st \<le> n") (simp_all add: print_entryN_wf [OF assms(1) n(2)])
  from print_entryN_wf_state [OF assms(1) n(2) pe]
  have wf1: "wf_state st1" and lb1: "last_bases st1 = last_bases st"
    by simp_all
  note w = write_ring_written [OF wf1 assms(2), of c, unfolded lb1]
  have wr: "write_ring (last_bases st1) p c = Some ?rg"
    using w(1) lb1 by simp
  have b: "call_invalid_repeat (st1\<lparr>last_bases := ?rg\<rparr>) =
      (if ring_size ?rg = 2 then invalid_repeat2 (st1\<lparr>last_bases := ?rg\<rparr>)
       else if ring_size ?rg = 3 then invalid_repeat3 (st1\<lparr>last_bases := ?rg\<rparr>)
       else invalid_repeat4 (st1\<lparr>last_bases := ?rg\<rparr>))"
    using call_invalid_repeat_period [OF w(2)] by simp
  have c: "call_invalid_repeat (st1\<lparr>last_bases := ?rg\<rparr>) =
      Some (if spec_degenerate (window ?rg p) then 1 else 0)"
    using call_invalid_repeat_window [OF w(2), of p] by simp
  have d: "scan_base st p n c =
      Some (st1\<lparr>last_bases := ?rg\<rparr>, if spec_degenerate (window ?rg p) then ?r - 1 else ?r, out)"
    using scan_base_mismatch [OF assms(1) n rd ne pe] .
  have e: "ring_size ?rg = ?r"
    "elements ?rg = (elements (last_bases st))[nat (p mod ?r) := int_to_char c]"
    by simp_all
  from pe lb1 wr e b c d
  show "\<exists>st1 out rg.
               print_entryN st p n = Some (st1, out)
             \<and> last_bases st1 = last_bases st
             \<and> write_ring (last_bases st1) p c = Some rg
             \<and> ring_size rg = ?r
             \<and> elements rg = (elements (last_bases st))[nat (p mod ?r) := int_to_char c]
             \<and> call_invalid_repeat (st1\<lparr>last_bases := rg\<rparr>) =
                 (if ring_size rg = 2 then invalid_repeat2 (st1\<lparr>last_bases := rg\<rparr>)
                  else if ring_size rg = 3 then invalid_repeat3 (st1\<lparr>last_bases := rg\<rparr>)
                  else invalid_repeat4 (st1\<lparr>last_bases := rg\<rparr>))
             \<and> call_invalid_repeat (st1\<lparr>last_bases := rg\<rparr>) =
                 Some (if spec_degenerate (window rg p) then 1 else 0)
             \<and> scan_base st p n c =
                 Some (st1\<lparr>last_bases := rg\<rparr>,
                       if spec_degenerate (window rg p) then ?r - 1 else ?r, out)"
    by (intro exI conjI)
next
  let ?r = "ring_size (last_bases st)"
  assume n: "n < ?r - 1"
  from wf_state_write [OF assms, of c] obtain rg where
    w: "write_ring (last_bases st) p c = Some rg"
    by blast
  from n w have "\<forall>f. scan_base (st\<lparr>invalid_repeat := f\<rparr>) p n c =
      Some (st\<lparr>invalid_repeat := f, last_bases := rg\<rparr>, n + 1, [])"
    by (simp add: scan_base_def Let_def)
  with w show "\<exists>rg. write_ring (last_bases st) p c = Some rg
      \<and> (\<forall>f. scan_base (st\<lparr>invalid_repeat := f\<rparr>) p n c =
               Some (st\<lparr>invalid_repeat := f, last_bases := rg\<rparr>, n + 1, []))"
    by blast
next
  let ?r = "ring_size (last_bases st)"
  assume "n > ?r - 1 \<and> read_ring (last_bases st) p = Some c"
  then show "\<forall>f. scan_base (st\<lparr>invalid_repeat := f\<rparr>) p n c =
      Some (st\<lparr>invalid_repeat := f\<rparr>, n + 1, [])"
    by (simp add: scan_base_def Let_def)
qed

theorem boundary_step_witness:
  "wf_state (example_state 2 Invalid_repeat2 ''A?'' 4)
   \<and> scan_base (example_state 2 Invalid_repeat2 ''A?'' 4) 1 1 84 =
       Some (example_state 2 Invalid_repeat2 ''AT'' 4, 2, [])
   \<and> scan_base (example_state 2 Invalid_repeat2 ''A?'' 4) 1 1 65 =
       Some (example_state 2 Invalid_repeat2 ''AA'' 4, 1, [])
   \<and> wf_state (example_state 3 Invalid_repeat3 ''AA?'' 6)
   \<and> scan_base (example_state 3 Invalid_repeat3 ''AA?'' 6) 2 2 65 =
       Some (example_state 3 Invalid_repeat3 ''AAA'' 6, 2, [])
   \<and> scan_base (example_state 3 Invalid_repeat3 ''AA?'' 6) 2 2 67 =
       Some (example_state 3 Invalid_repeat3 ''AAC'' 6, 3, [])
   \<and> wf_state (example_state 2 Invalid_repeat2 ''AT'' 4)
   \<and> scan_base (example_state 2 Invalid_repeat2 ''AT'' 4) 2 2 84 =
       Some (example_state 2 Invalid_repeat2 ''TT'' 4, 1, [])
   \<and> scan_base (example_state 2 Invalid_repeat2 ''AT'' 4) 2 2 71 =
       Some (example_state 2 Invalid_repeat2 ''GT'' 4, 2, [])
   \<and> wf_state (example_state 4 Invalid_repeat4 ''A???'' 8)
   \<and> scan_base (example_state 4 Invalid_repeat4 ''A???'' 8) 1 1 84 =
       Some (example_state 4 Invalid_repeat4 ''AT??'' 8, 2, [])
   \<and> scan_base (example_state 2 Invalid_repeat2 ''AT'' 4) 2 2 65 =
       Some (example_state 2 Invalid_repeat2 ''AT'' 4, 3, [])"
proof -
  let ?st = "example_state 2 Invalid_repeat2 ''A?'' 4"
  let ?s3 = "example_state 3 Invalid_repeat3 ''AA?'' 6"
  let ?s4 = "example_state 4 Invalid_repeat4 ''A???'' 8"
  let ?s2 = "example_state 2 Invalid_repeat2 ''AT'' 4"
  have wf: "wf_state ?st" and wf3: "wf_state ?s3" and wf4: "wf_state ?s4" and wf2: "wf_state ?s2"
    by code_simp+
  have p: "(0::int) \<le> 1" "(0::int) \<le> 2"
    by simp_all
  have n: "(1::int) = ring_size (last_bases ?st) - 1"
    and n3: "(2::int) = ring_size (last_bases ?s3) - 1"
    by code_simp+
  have r2: "ring_size (last_bases ?st) = 2" and r3: "ring_size (last_bases ?s3) = 3"
    and r2': "ring_size (last_bases ?s2) = 2"
    by code_simp+
  have w1: "write_ring (last_bases ?st) 1 84 = Some \<lparr>ring_size = 2, elements = ''AT''\<rparr>"
    and w2: "write_ring (last_bases ?st) 1 65 = Some \<lparr>ring_size = 2, elements = ''AA''\<rparr>"
    and w3: "write_ring (last_bases ?s4) 1 84 = Some \<lparr>ring_size = 4, elements = ''AT??''\<rparr>"
    and w4: "write_ring (last_bases ?s3) 2 65 = Some \<lparr>ring_size = 3, elements = ''AAA''\<rparr>"
    and w5: "write_ring (last_bases ?s3) 2 67 = Some \<lparr>ring_size = 3, elements = ''AAC''\<rparr>"
    and w6: "write_ring (last_bases ?s2) 2 84 = Some \<lparr>ring_size = 2, elements = ''TT''\<rparr>"
    and w7: "write_ring (last_bases ?s2) 2 71 = Some \<lparr>ring_size = 2, elements = ''GT''\<rparr>"
    by code_simp+
  have d1: "\<not> spec_degenerate (window \<lparr>ring_size = 2, elements = ''AT''\<rparr> 1)"
    and d2: "spec_degenerate (window \<lparr>ring_size = 2, elements = ''AA''\<rparr> 1)"
    and d4: "spec_degenerate (window \<lparr>ring_size = 3, elements = ''AAA''\<rparr> 2)"
    and d5: "\<not> spec_degenerate (window \<lparr>ring_size = 3, elements = ''AAC''\<rparr> 2)"
    and d6: "spec_degenerate (window \<lparr>ring_size = 2, elements = ''TT''\<rparr> 2)"
    and d7: "\<not> spec_degenerate (window \<lparr>ring_size = 2, elements = ''GT''\<rparr> 2)"
    by code_simp+
  have a: "scan_base ?st 1 1 84 = Some (example_state 2 Invalid_repeat2 ''AT'' 4, 2, [])"
  proof -
    from boundary_step [OF wf p(1), of 1 84, THEN conjunct1, rule_format, OF n] obtain rg where
      f1: "write_ring (last_bases ?st) 1 84 = Some rg"
      and f2: "scan_base ?st 1 1 84 =
        Some (?st\<lparr>last_bases := rg\<rparr>,
              if spec_degenerate (window rg 1)
              then ring_size (last_bases ?st) - 1 else ring_size (last_bases ?st), [])"
      by (elim exE conjE) (rule that)
    from f1 w1 have s: "rg = \<lparr>ring_size = 2, elements = ''AT''\<rparr>"
      by simp
    from f2 d1 show ?thesis
      unfolding s r2 by (simp add: example_state_def)
  qed
  have b: "scan_base ?st 1 1 65 = Some (example_state 2 Invalid_repeat2 ''AA'' 4, 1, [])"
  proof -
    from boundary_step [OF wf p(1), of 1 65, THEN conjunct1, rule_format, OF n] obtain rg where
      f1: "write_ring (last_bases ?st) 1 65 = Some rg"
      and f2: "scan_base ?st 1 1 65 =
        Some (?st\<lparr>last_bases := rg\<rparr>,
              if spec_degenerate (window rg 1)
              then ring_size (last_bases ?st) - 1 else ring_size (last_bases ?st), [])"
      by (elim exE conjE) (rule that)
    from f1 w2 have s: "rg = \<lparr>ring_size = 2, elements = ''AA''\<rparr>"
      by simp
    from f2 d2 show ?thesis
      unfolding s r2 by (simp add: example_state_def)
  qed
  have c: "scan_base ?s3 2 2 65 = Some (example_state 3 Invalid_repeat3 ''AAA'' 6, 2, [])"
  proof -
    from boundary_step [OF wf3 p(2), of 2 65, THEN conjunct1, rule_format, OF n3] obtain rg where
      f1: "write_ring (last_bases ?s3) 2 65 = Some rg"
      and f2: "scan_base ?s3 2 2 65 =
        Some (?s3\<lparr>last_bases := rg\<rparr>,
              if spec_degenerate (window rg 2)
              then ring_size (last_bases ?s3) - 1 else ring_size (last_bases ?s3), [])"
      by (elim exE conjE) (rule that)
    from f1 w4 have s: "rg = \<lparr>ring_size = 3, elements = ''AAA''\<rparr>"
      by simp
    from f2 d4 show ?thesis
      unfolding s r3 by (simp add: example_state_def)
  qed
  have d: "scan_base ?s3 2 2 67 = Some (example_state 3 Invalid_repeat3 ''AAC'' 6, 3, [])"
  proof -
    from boundary_step [OF wf3 p(2), of 2 67, THEN conjunct1, rule_format, OF n3] obtain rg where
      f1: "write_ring (last_bases ?s3) 2 67 = Some rg"
      and f2: "scan_base ?s3 2 2 67 =
        Some (?s3\<lparr>last_bases := rg\<rparr>,
              if spec_degenerate (window rg 2)
              then ring_size (last_bases ?s3) - 1 else ring_size (last_bases ?s3), [])"
      by (elim exE conjE) (rule that)
    from f1 w5 have s: "rg = \<lparr>ring_size = 3, elements = ''AAC''\<rparr>"
      by simp
    from f2 d5 show ?thesis
      unfolding s r3 by (simp add: example_state_def)
  qed
  have m: "ring_size (last_bases ?s2) \<le> 2 \<and> (2::int) \<le> 2 \<and> read_ring (last_bases ?s2) 2 \<noteq> Some 84"
    and m': "ring_size (last_bases ?s2) \<le> 2 \<and> (2::int) \<le> 2 \<and> read_ring (last_bases ?s2) 2 \<noteq> Some 71"
    by code_simp+
  have pe: "print_entryN ?s2 2 2 = Some (?s2, [])"
    by code_simp
  have e: "scan_base ?s2 2 2 84 = Some (example_state 2 Invalid_repeat2 ''TT'' 4, 1, [])"
  proof -
    from boundary_step [OF wf2 p(2), of 2 84, THEN conjunct2, THEN conjunct1, rule_format, OF m] obtain st1 out rg where
      f0: "print_entryN ?s2 2 2 = Some (st1, out)"
      and f1: "write_ring (last_bases st1) 2 84 = Some rg"
      and f2: "scan_base ?s2 2 2 84 =
        Some (st1\<lparr>last_bases := rg\<rparr>,
              if spec_degenerate (window rg 2)
              then ring_size (last_bases ?s2) - 1 else ring_size (last_bases ?s2), out)"
      by (elim exE conjE) (rule that)
    from f0 pe have s1: "st1 = ?s2" and s2: "out = []"
      by simp_all
    from f1 w6 have s: "rg = \<lparr>ring_size = 2, elements = ''TT''\<rparr>"
      unfolding s1 by simp
    from f2 d6 show ?thesis
      unfolding s1 s2 s r2' by (simp add: example_state_def)
  qed
  have f: "scan_base ?s2 2 2 71 = Some (example_state 2 Invalid_repeat2 ''GT'' 4, 2, [])"
  proof -
    from boundary_step [OF wf2 p(2), of 2 71, THEN conjunct2, THEN conjunct1, rule_format, OF m'] obtain st1 out rg where
      f0: "print_entryN ?s2 2 2 = Some (st1, out)"
      and f1: "write_ring (last_bases st1) 2 71 = Some rg"
      and f2: "scan_base ?s2 2 2 71 =
        Some (st1\<lparr>last_bases := rg\<rparr>,
              if spec_degenerate (window rg 2)
              then ring_size (last_bases ?s2) - 1 else ring_size (last_bases ?s2), out)"
      by (elim exE conjE) (rule that)
    from f0 pe have s1: "st1 = ?s2" and s2: "out = []"
      by simp_all
    from f1 w7 have s: "rg = \<lparr>ring_size = 2, elements = ''GT''\<rparr>"
      unfolding s1 by simp
    from f2 d7 show ?thesis
      unfolding s1 s2 s r2' by (simp add: example_state_def)
  qed
  have n4: "(1::int) < ring_size (last_bases ?s4) - 1"
    by code_simp
  from boundary_step [OF wf4 p(1), of 1 84, THEN conjunct2, THEN conjunct2, THEN conjunct1,
      rule_format, OF n4]
  obtain rg where g1: "write_ring (last_bases ?s4) 1 84 = Some rg"
    and g2: "\<forall>f. scan_base (?s4\<lparr>invalid_repeat := f\<rparr>) 1 1 84 =
      Some (?s4\<lparr>invalid_repeat := f, last_bases := rg\<rparr>, 1 + 1, [])"
    by (elim exE conjE) (rule that)
  from g1 w3 have g3: "rg = \<lparr>ring_size = 4, elements = ''AT??''\<rparr>"
    by simp
  from g2 have "scan_base (?s4\<lparr>invalid_repeat := Invalid_repeat4\<rparr>) 1 1 84 =
      Some (?s4\<lparr>invalid_repeat := Invalid_repeat4,
                 last_bases := \<lparr>ring_size = 4, elements = ''AT??''\<rparr>\<rparr>, 1 + 1, [])"
    unfolding g3 by (rule spec)
  then have g: "scan_base ?s4 1 1 84 = Some (example_state 4 Invalid_repeat4 ''AT??'' 8, 2, [])"
    by (simp add: example_state_def)
  have n2: "(2::int) > ring_size (last_bases ?s2) - 1 \<and> read_ring (last_bases ?s2) 2 = Some 65"
    by code_simp
  from boundary_step [OF wf2 p(2), of 2 65, THEN conjunct2, THEN conjunct2, THEN conjunct2,
      THEN mp, OF n2]
  have "scan_base (?s2\<lparr>invalid_repeat := Invalid_repeat2\<rparr>) 2 2 65 =
      Some (?s2\<lparr>invalid_repeat := Invalid_repeat2\<rparr>, 2 + 1, [])"
    by (rule spec)
  then have h: "scan_base ?s2 2 2 65 = Some (?s2, 3, [])"
    by (simp add: example_state_def)
  from wf a b wf3 c d wf2 e f wf4 g h show ?thesis
    by simp
qed

section \<open>The emission gate\<close>

lemma scan_seqN_header:
  "scan_seqN (CHR ''>'' # fp) st p n =
     (case print_entryN st p n of None \<Rightarrow> None | Some (st', out) \<Rightarrow> Some (fp, st', out))"
  by (subst scan_seqN_Cons) simp

lemma scan_seqN_base_N:
  "scan_seqN (CHR ''N'' # fp) st p n =
     (case print_entryN st p n of
        None \<Rightarrow> None
      | Some (st', out) \<Rightarrow> after_printing out (scan_seqN fp st' (p + 1) 0))"
  by (subst scan_seqN_Cons) simp

lemma scan_base_quiet:
  assumes wf: "wf_state st" and p: "0 \<le> p"
    and q: "n < ring_size (last_bases st) \<or> read_ring (last_bases st) p = Some c"
  shows "\<exists>st2 n2. scan_base st p n c = Some (st2, n2, [])"
proof -
  let ?r = "ring_size (last_bases st)"
  consider "n < ?r - 1" | "n = ?r - 1" | "?r - 1 < n" "read_ring (last_bases st) p = Some c"
    using q by fastforce
  then show ?thesis
  proof cases
    case 1
    from scan_base_fill [OF wf p 1, of c] show ?thesis
      by (intro exI)
  next
    case 2
    from scan_base_boundary [OF wf p 2, of c] show ?thesis
      by (intro exI)
  next
    case 3
    from scan_base_match [OF 3] show ?thesis
      by (intro exI)
  qed
qed

text \<open>
  C6. Emission gate. In the period-N machine a run is handed over through
  \<^verbatim>\<open>print_entryN\<close>: at the end of the file (the first equation of \<open>scan_seqN\<close>), at
  the header prefix \<^verbatim>\<open>>\<close> that ends the segment, at the break symbol \<^verbatim>\<open>N\<close>, after
  which the scan goes on with \<open>n = 0\<close>, and at a symbol of the comparison phase that
  differs from the slot read. In a well-formed state \<^verbatim>\<open>print_entryN\<close> prints a record
  if and only if \<open>n\<close> is at least the threshold, and then exactly one, and what each of
  these four steps prints is exactly that. The other steps (fill phase, boundary step,
  matching symbol) print nothing. In the homopolymer machine a run in progress is a
  run of a symbol other than \<^verbatim>\<open>N\<close> (\<^verbatim>\<open>N\<close> in \<^verbatim>\<open>last_base\<close> is the state before any run
  and after a break); it is completed by a symbol that differs (the header prefix and
  \<^verbatim>\<open>N\<close> among them) or by the end of the file, and a record is printed for it if and
  only if \<open>n\<close> is at least the threshold; when \<^verbatim>\<open>last_base\<close> is \<^verbatim>\<open>N\<close> nothing is printed
  whatever \<open>n\<close> is. So a run of length \<open>threshold - 1\<close> is not printed and a run of
  length \<open>threshold\<close> is.
\<close>

theorem emission_gate:
  "(wf_state st \<and> n \<le> p \<longrightarrow>
      (\<exists>st' out. print_entryN st p n = Some (st', out)
         \<and> (out \<noteq> [] \<longleftrightarrow> length_s st \<le> n)
         \<and> (length_s st \<le> n \<longrightarrow> out = [print_entry (chr st) p n (unit_buffer st')])
         \<and> scan_seqN [] st p n = Some ([], st', out)
         \<and> scan_seqN (CHR ''>'' # fp) st p n = Some (fp, st', out)
         \<and> scan_seqN (CHR ''N'' # fp) st p n = after_printing out (scan_seqN fp st' (p + 1) 0)
         \<and> (ring_size (last_bases st) \<le> n \<and> read_ring (last_bases st) p \<noteq> Some c \<longrightarrow>
              (\<exists>st2 n2. scan_base st p n c = Some (st2, n2, out)))))
   \<and> (wf_state st \<and> 0 \<le> p
        \<and> (n < ring_size (last_bases st) \<or> read_ring (last_bases st) p = Some c) \<longrightarrow>
        (\<exists>st2 n2. scan_base st p n c = Some (st2, n2, [])))
   \<and> (lb \<noteq> CHR ''N'' \<and> of_char x \<noteq> NEWLINE \<and> of_char x \<noteq> char_to_int lb \<longrightarrow>
        fst (scan_seq1 (Suc k) (x # fp) chr0 len lb p n) =
          (if len \<le> n then [print_entry chr0 p n [lb, CHR 0x00]] else [])
          @ (if of_char x = HEADER_PREFIX then []
             else fst (scan_seq1 k fp chr0 len (int_to_char (of_char x)) (p + 1) 1)))
   \<and> (lb \<noteq> CHR ''N'' \<and> EOF \<noteq> char_to_int lb \<longrightarrow>
        scan_seq1 (Suc k) [] chr0 len lb p n =
          (if len \<le> n then [print_entry chr0 p n [lb, CHR 0x00]] else [], Some []))
   \<and> (of_char x \<noteq> NEWLINE \<and> of_char x \<noteq> char_to_int CHR ''N'' \<longrightarrow>
        fst (scan_seq1 (Suc k) (x # fp) chr0 len CHR ''N'' p n) =
          (if of_char x = HEADER_PREFIX then []
           else fst (scan_seq1 k fp chr0 len (int_to_char (of_char x)) (p + 1) 1)))"
proof (intro conjI impI)
  let ?r = "ring_size (last_bases st)"
  assume a: "wf_state st \<and> n \<le> p"
  then have wf: "wf_state st" and np: "n \<le> p"
    by simp_all
  let ?u = "ring_unit (last_bases st) ((p - n) mod ?r) @ [CHR 0x00]"
  let ?st' = "if length_s st \<le> n then st\<lparr>unit_buffer := ?u\<rparr> else st"
  let ?out = "if length_s st \<le> n then [print_entry (chr st) p n ?u] else []"
  have pe: "print_entryN st p n = Some (?st', ?out)"
    using print_entryN_wf [OF wf np] by simp
  have g1: "?out \<noteq> [] \<longleftrightarrow> length_s st \<le> n"
    by simp
  have g2: "length_s st \<le> n \<longrightarrow> ?out = [print_entry (chr st) p n (unit_buffer ?st')]"
    by simp
  have g3: "scan_seqN [] st p n = Some ([], ?st', ?out)"
    using pe by simp
  have g4: "scan_seqN (CHR ''>'' # fp) st p n = Some (fp, ?st', ?out)"
    using pe by (simp only: scan_seqN_header option.case prod.case)
  have g5: "scan_seqN (CHR ''N'' # fp) st p n = after_printing ?out (scan_seqN fp ?st' (p + 1) 0)"
    using pe by (simp only: scan_seqN_base_N option.case prod.case)
  have g6: "?r \<le> n \<and> read_ring (last_bases st) p \<noteq> Some c \<longrightarrow>
      (\<exists>st2 n2. scan_base st p n c = Some (st2, n2, ?out))"
  proof
    assume b: "?r \<le> n \<and> read_ring (last_bases st) p \<noteq> Some c"
    then have n: "?r \<le> n"
      by simp
    from n np wf_stateD(4) [OF wf] have p: "0 \<le> p"
      by simp
    let ?c0 = "char_to_int (elements (last_bases st) ! nat (p mod ?r))"
    have rd: "read_ring (last_bases st) p = Some ?c0"
      using read_ring_slot [OF wf_stateD(4) [OF wf] wf_stateD(1) [OF wf] p] .
    with b have ne: "?c0 \<noteq> c"
      by simp
    from scan_base_mismatch [OF wf n np rd ne pe]
    show "\<exists>st2 n2. scan_base st p n c = Some (st2, n2, ?out)"
      by (intro exI)
  qed
  from pe g1 g2 g3 g4 g5 g6
  show "\<exists>st' out. print_entryN st p n = Some (st', out)
         \<and> (out \<noteq> [] \<longleftrightarrow> length_s st \<le> n)
         \<and> (length_s st \<le> n \<longrightarrow> out = [print_entry (chr st) p n (unit_buffer st')])
         \<and> scan_seqN [] st p n = Some ([], st', out)
         \<and> scan_seqN (CHR ''>'' # fp) st p n = Some (fp, st', out)
         \<and> scan_seqN (CHR ''N'' # fp) st p n = after_printing out (scan_seqN fp st' (p + 1) 0)
         \<and> (?r \<le> n \<and> read_ring (last_bases st) p \<noteq> Some c \<longrightarrow>
              (\<exists>st2 n2. scan_base st p n c = Some (st2, n2, out)))"
    by (intro exI conjI)
next
  assume "wf_state st \<and> 0 \<le> p
        \<and> (n < ring_size (last_bases st) \<or> read_ring (last_bases st) p = Some c)"
  then show "\<exists>st2 n2. scan_base st p n c = Some (st2, n2, [])"
    using scan_base_quiet [of st p n c] by simp
next
  assume a: "lb \<noteq> CHR ''N'' \<and> of_char x \<noteq> NEWLINE \<and> of_char x \<noteq> char_to_int lb"
  have "of_char x \<noteq> EOF"
    using of_char_range [of x] by (simp add: EOF_def)
  with a show "fst (scan_seq1 (Suc k) (x # fp) chr0 len lb p n) =
          (if len \<le> n then [print_entry chr0 p n [lb, CHR 0x00]] else [])
          @ (if of_char x = HEADER_PREFIX then []
             else fst (scan_seq1 k fp chr0 len (int_to_char (of_char x)) (p + 1) 1))"
    by (simp add: Let_def split: prod.splits)
next
  assume "lb \<noteq> CHR ''N'' \<and> EOF \<noteq> char_to_int lb"
  then show "scan_seq1 (Suc k) [] chr0 len lb p n =
          (if len \<le> n then [print_entry chr0 p n [lb, CHR 0x00]] else [], Some [])"
    by (simp add: Let_def EOF_def NEWLINE_def)
next
  assume a: "of_char x \<noteq> NEWLINE \<and> of_char x \<noteq> char_to_int CHR ''N''"
  have "of_char x \<noteq> EOF"
    using of_char_range [of x] by (simp add: EOF_def)
  with a show "fst (scan_seq1 (Suc k) (x # fp) chr0 len CHR ''N'' p n) =
          (if of_char x = HEADER_PREFIX then []
           else fst (scan_seq1 k fp chr0 len (int_to_char (of_char x)) (p + 1) 1))"
    by (simp add: Let_def split: prod.splits)
qed


theorem emission_gate_witness:
  "print_entryN (example_state 2 Invalid_repeat2 ''AT'' 4) 6 3 =
     Some (example_state 2 Invalid_repeat2 ''AT'' 4, [])
   \<and> scan_seqN [] (example_state 2 Invalid_repeat2 ''AT'' 4) 6 3 =
     Some ([], example_state 2 Invalid_repeat2 ''AT'' 4, [])
   \<and> scan_seqN [] (example_state 2 Invalid_repeat2 ''AT'' 4) 6 4 =
     Some ([], (example_state 2 Invalid_repeat2 ''AT'' 4)\<lparr>unit_buffer := ''AT'' @ [CHR 0x00]\<rparr>,
           [Entry ''chr1'' 2 6 ''AT''])
   \<and> scan_seqN ''>chr2'' (example_state 2 Invalid_repeat2 ''AT'' 4) 6 3 =
     Some (''chr2'', example_state 2 Invalid_repeat2 ''AT'' 4, [])
   \<and> scan_seqN ''>chr2'' (example_state 2 Invalid_repeat2 ''AT'' 4) 6 4 =
     Some (''chr2'', (example_state 2 Invalid_repeat2 ''AT'' 4)\<lparr>unit_buffer := ''AT'' @ [CHR 0x00]\<rparr>,
           [Entry ''chr1'' 2 6 ''AT''])
   \<and> scan_seqN ''N'' (example_state 2 Invalid_repeat2 ''AT'' 4) 6 3 =
     Some ([], example_state 2 Invalid_repeat2 ''AT'' 4, [])
   \<and> scan_seqN ''N'' (example_state 2 Invalid_repeat2 ''AT'' 4) 6 4 =
     Some ([], (example_state 2 Invalid_repeat2 ''AT'' 4)\<lparr>unit_buffer := ''AT'' @ [CHR 0x00]\<rparr>,
           [Entry ''chr1'' 2 6 ''AT''])
   \<and> map_option (snd \<circ> snd) (scan_base (example_state 2 Invalid_repeat2 ''AT'' 4) 6 3 71) =
     Some []
   \<and> map_option (snd \<circ> snd) (scan_base (example_state 2 Invalid_repeat2 ''AT'' 4) 6 4 71) =
     Some [Entry ''chr1'' 2 6 ''AT'']
   \<and> map_option (snd \<circ> snd) (scan_base (example_state 2 Invalid_repeat2 ''AT'' 4) 6 4 65) =
     Some []
   \<and> fst (scan_seq1 (Suc 0) ''C'' ''chr1'' 3 CHR ''A'' 7 2) = []
   \<and> fst (scan_seq1 (Suc 0) ''C'' ''chr1'' 3 CHR ''A'' 7 3) = [Entry ''chr1'' 4 7 ''A'']
   \<and> fst (scan_seq1 (Suc 0) ''>'' ''chr1'' 3 CHR ''A'' 7 3) = [Entry ''chr1'' 4 7 ''A'']
   \<and> fst (scan_seq1 (Suc 0) ''N'' ''chr1'' 3 CHR ''A'' 7 3) = [Entry ''chr1'' 4 7 ''A'']
   \<and> scan_seq1 (Suc 0) [] ''chr1'' 3 CHR ''A'' 7 2 = ([], Some [])
   \<and> scan_seq1 (Suc 0) [] ''chr1'' 3 CHR ''A'' 7 3 = ([Entry ''chr1'' 4 7 ''A''], Some [])
   \<and> fst (scan_seq1 (Suc 0) ''C'' ''chr1'' 3 CHR ''N'' 7 5) = []"
proof -
  let ?st = "example_state 2 Invalid_repeat2 ''AT'' 4"
  let ?st' = "?st\<lparr>unit_buffer := ''AT'' @ [CHR 0x00]\<rparr>"
  have wf3: "wf_state ?st \<and> (3::int) \<le> 6" and wf4: "wf_state ?st \<and> (4::int) \<le> 6"
    by code_simp+
  have pe3: "print_entryN ?st 6 3 = Some (?st, [])"
    and pe4: "print_entryN ?st 6 4 = Some (?st', [Entry ''chr1'' 2 6 ''AT''])"
    by code_simp+
  have e3: "scan_seqN [] ?st 7 0 = Some ([], ?st, [])"
    and e4: "scan_seqN [] ?st' 7 0 = Some ([], ?st', [])"
    by code_simp+
  have mm3: "ring_size (last_bases ?st) \<le> 3 \<and> read_ring (last_bases ?st) 6 \<noteq> Some 71"
    and mm4: "ring_size (last_bases ?st) \<le> 4 \<and> read_ring (last_bases ?st) 6 \<noteq> Some 71"
    by code_simp+
  from emission_gate [where st = ?st and n = 3 and p = 6 and fp = "''chr2''" and c = 71,
      THEN conjunct1, THEN mp, OF wf3]
  obtain st1 out1 where
    a1: "print_entryN ?st 6 3 = Some (st1, out1)"
    and a2: "scan_seqN [] ?st 6 3 = Some ([], st1, out1)"
    and a3: "scan_seqN (CHR ''>'' # ''chr2'') ?st 6 3 = Some (''chr2'', st1, out1)"
    and a4: "ring_size (last_bases ?st) \<le> 3 \<and> read_ring (last_bases ?st) 6 \<noteq> Some 71 \<longrightarrow>
      (\<exists>st2 n2. scan_base ?st 6 3 71 = Some (st2, n2, out1))"
    by (elim exE conjE) (rule that)
  from a1 pe3 have s1: "st1 = ?st" "out1 = []"
    by simp_all
  from a4 mm3 obtain st2 n2 where "scan_base ?st 6 3 71 = Some (st2, n2, out1)"
    by (elim impE exE)
  then have a5: "map_option (snd \<circ> snd) (scan_base ?st 6 3 71) = Some []"
    unfolding s1 by simp
  from emission_gate [where st = ?st and n = 3 and p = 6 and fp = "[]" and c = 71,
      THEN conjunct1, THEN mp, OF wf3]
  obtain st1' out1' where
    a1': "print_entryN ?st 6 3 = Some (st1', out1')"
    and a6': "scan_seqN (CHR ''N'' # []) ?st 6 3 = after_printing out1' (scan_seqN [] st1' (6 + 1) 0)"
    by (elim exE conjE) (rule that)
  from a1' pe3 have s1': "st1' = ?st" "out1' = []"
    by simp_all
  from a6' e3 have a6: "scan_seqN ''N'' ?st 6 3 = Some ([], ?st, [])"
    unfolding s1' by simp
  from emission_gate [where st = ?st and n = 4 and p = 6 and fp = "''chr2''" and c = 71,
      THEN conjunct1, THEN mp, OF wf4]
  obtain st3 out3 where
    b1: "print_entryN ?st 6 4 = Some (st3, out3)"
    and b2: "scan_seqN [] ?st 6 4 = Some ([], st3, out3)"
    and b3: "scan_seqN (CHR ''>'' # ''chr2'') ?st 6 4 = Some (''chr2'', st3, out3)"
    and b4: "ring_size (last_bases ?st) \<le> 4 \<and> read_ring (last_bases ?st) 6 \<noteq> Some 71 \<longrightarrow>
      (\<exists>st2 n2. scan_base ?st 6 4 71 = Some (st2, n2, out3))"
    by (elim exE conjE) (rule that)
  from b1 pe4 have s3: "st3 = ?st'" "out3 = [Entry ''chr1'' 2 6 ''AT'']"
    by simp_all
  from b4 mm4 obtain st4 n4 where "scan_base ?st 6 4 71 = Some (st4, n4, out3)"
    by (elim impE exE)
  then have b5: "map_option (snd \<circ> snd) (scan_base ?st 6 4 71) = Some [Entry ''chr1'' 2 6 ''AT'']"
    unfolding s3 by simp
  from emission_gate [where st = ?st and n = 4 and p = 6 and fp = "[]" and c = 71,
      THEN conjunct1, THEN mp, OF wf4]
  obtain st3' out3' where
    b1': "print_entryN ?st 6 4 = Some (st3', out3')"
    and b6': "scan_seqN (CHR ''N'' # []) ?st 6 4 = after_printing out3' (scan_seqN [] st3' (6 + 1) 0)"
    by (elim exE conjE) (rule that)
  from b1' pe4 have s3': "st3' = ?st'" "out3' = [Entry ''chr1'' 2 6 ''AT'']"
    by simp_all
  from b6' e4 have b6: "scan_seqN ''N'' ?st 6 4 =
      Some ([], ?st', [Entry ''chr1'' 2 6 ''AT''])"
    unfolding s3' by simp
  have q: "wf_state ?st \<and> (0::int) \<le> 6
      \<and> (4 < ring_size (last_bases ?st) \<or> read_ring (last_bases ?st) 6 = Some 65)"
    by code_simp
  from emission_gate [where st = ?st and n = 4 and p = 6 and c = 65,
      THEN conjunct2, THEN conjunct1, THEN mp, OF q]
  obtain st5 n5 where "scan_base ?st 6 4 65 = Some (st5, n5, [])"
    by (elim exE)
  then have c5: "map_option (snd \<circ> snd) (scan_base ?st 6 4 65) = Some []"
    by simp
  have h: "CHR ''A'' \<noteq> CHR ''N'' \<and> (of_char CHR ''C'' :: int) \<noteq> NEWLINE
      \<and> of_char CHR ''C'' \<noteq> char_to_int CHR ''A''"
    and hh: "CHR ''A'' \<noteq> CHR ''N'' \<and> (of_char CHR ''>'' :: int) \<noteq> NEWLINE
      \<and> of_char CHR ''>'' \<noteq> char_to_int CHR ''A''"
    and hn: "CHR ''A'' \<noteq> CHR ''N'' \<and> (of_char CHR ''N'' :: int) \<noteq> NEWLINE
      \<and> of_char CHR ''N'' \<noteq> char_to_int CHR ''A''"
    and h': "CHR ''A'' \<noteq> CHR ''N'' \<and> EOF \<noteq> char_to_int CHR ''A''"
    and hN: "(of_char CHR ''C'' :: int) \<noteq> NEWLINE \<and> of_char CHR ''C'' \<noteq> char_to_int CHR ''N''"
    by code_simp+
  have r1: "(if (3::int) \<le> 2 then [print_entry ''chr1'' 7 2 [CHR ''A'', CHR 0x00]] else [])
        @ (if of_char CHR ''C'' = HEADER_PREFIX then []
           else fst (scan_seq1 0 [] ''chr1'' 3 (int_to_char (of_char CHR ''C'')) (7 + 1) 1)) = []"
    and r2: "(if (3::int) \<le> 3 then [print_entry ''chr1'' 7 3 [CHR ''A'', CHR 0x00]] else [])
        @ (if of_char CHR ''C'' = HEADER_PREFIX then []
           else fst (scan_seq1 0 [] ''chr1'' 3 (int_to_char (of_char CHR ''C'')) (7 + 1) 1))
        = [Entry ''chr1'' 4 7 ''A'']"
    and r3: "(if (3::int) \<le> 3 then [print_entry ''chr1'' 7 3 [CHR ''A'', CHR 0x00]] else [])
        @ (if of_char CHR ''>'' = HEADER_PREFIX then []
           else fst (scan_seq1 0 [] ''chr1'' 3 (int_to_char (of_char CHR ''>'')) (7 + 1) 1))
        = [Entry ''chr1'' 4 7 ''A'']"
    and r4: "(if (3::int) \<le> 3 then [print_entry ''chr1'' 7 3 [CHR ''A'', CHR 0x00]] else [])
        @ (if of_char CHR ''N'' = HEADER_PREFIX then []
           else fst (scan_seq1 0 [] ''chr1'' 3 (int_to_char (of_char CHR ''N'')) (7 + 1) 1))
        = [Entry ''chr1'' 4 7 ''A'']"
    and r5: "(if (3::int) \<le> 2 then [print_entry ''chr1'' 7 2 [CHR ''A'', CHR 0x00]] else [],
         Some ([]::string)) = ([], Some [])"
    and r6: "(if (3::int) \<le> 3 then [print_entry ''chr1'' 7 3 [CHR ''A'', CHR 0x00]] else [],
         Some ([]::string)) = ([Entry ''chr1'' 4 7 ''A''], Some [])"
    and r7: "(if of_char CHR ''C'' = HEADER_PREFIX then []
           else fst (scan_seq1 0 [] ''chr1'' 3 (int_to_char (of_char CHR ''C'')) (7 + 1) 1)) = []"
    by code_simp+
  have d1: "fst (scan_seq1 (Suc 0) ''C'' ''chr1'' 3 CHR ''A'' 7 2) = []"
    using emission_gate [where lb = "CHR ''A''" and x = "CHR ''C''" and k = 0 and fp = "[]"
      and ?chr0.0 = "''chr1''" and len = 3 and p = 7 and n = 2,
      THEN conjunct2, THEN conjunct2, THEN conjunct1, THEN mp, OF h] r1
    by (rule trans)
  have d2: "fst (scan_seq1 (Suc 0) ''C'' ''chr1'' 3 CHR ''A'' 7 3) = [Entry ''chr1'' 4 7 ''A'']"
    using emission_gate [where lb = "CHR ''A''" and x = "CHR ''C''" and k = 0 and fp = "[]"
      and ?chr0.0 = "''chr1''" and len = 3 and p = 7 and n = 3,
      THEN conjunct2, THEN conjunct2, THEN conjunct1, THEN mp, OF h] r2
    by (rule trans)
  have d3: "fst (scan_seq1 (Suc 0) ''>'' ''chr1'' 3 CHR ''A'' 7 3) = [Entry ''chr1'' 4 7 ''A'']"
    using emission_gate [where lb = "CHR ''A''" and x = "CHR ''>''" and k = 0 and fp = "[]"
      and ?chr0.0 = "''chr1''" and len = 3 and p = 7 and n = 3,
      THEN conjunct2, THEN conjunct2, THEN conjunct1, THEN mp, OF hh] r3
    by (rule trans)
  have d4: "fst (scan_seq1 (Suc 0) ''N'' ''chr1'' 3 CHR ''A'' 7 3) = [Entry ''chr1'' 4 7 ''A'']"
    using emission_gate [where lb = "CHR ''A''" and x = "CHR ''N''" and k = 0 and fp = "[]"
      and ?chr0.0 = "''chr1''" and len = 3 and p = 7 and n = 3,
      THEN conjunct2, THEN conjunct2, THEN conjunct1, THEN mp, OF hn] r4
    by (rule trans)
  have d5: "scan_seq1 (Suc 0) [] ''chr1'' 3 CHR ''A'' 7 2 = ([], Some [])"
    using emission_gate [where lb = "CHR ''A''" and k = 0
      and ?chr0.0 = "''chr1''" and len = 3 and p = 7 and n = 2,
      THEN conjunct2, THEN conjunct2, THEN conjunct2, THEN conjunct1, THEN mp, OF h'] r5
    by (rule trans)
  have d6: "scan_seq1 (Suc 0) [] ''chr1'' 3 CHR ''A'' 7 3 = ([Entry ''chr1'' 4 7 ''A''], Some [])"
    using emission_gate [where lb = "CHR ''A''" and k = 0
      and ?chr0.0 = "''chr1''" and len = 3 and p = 7 and n = 3,
      THEN conjunct2, THEN conjunct2, THEN conjunct2, THEN conjunct1, THEN mp, OF h'] r6
    by (rule trans)
  have d7: "fst (scan_seq1 (Suc 0) ''C'' ''chr1'' 3 CHR ''N'' 7 5) = []"
    using emission_gate [where x = "CHR ''C''" and k = 0 and fp = "[]"
      and ?chr0.0 = "''chr1''" and len = 3 and p = 7 and n = 5,
      THEN conjunct2, THEN conjunct2, THEN conjunct2, THEN conjunct2, THEN mp, OF hN] r7
    by (rule trans)
  from pe3 a2 [unfolded s1] b2 [unfolded s3] a3 [unfolded s1] b3 [unfolded s3] a6 b6 a5 b5 c5
    d1 d2 d3 d4 d5 d6 d7
  show ?thesis
    by (intro conjI)
qed

section \<open>The buffer-freshness invariant\<close>

text \<open>
  C10. Buffer freshness of the period-N scanner. Take any well-formed state, with
  whatever its buffers hold (left by a previous segment or by \<^verbatim>\<open>malloc\<close>), a threshold
  above the period (the guard \<^verbatim>\<open>len <= rep\<close> of \<^verbatim>\<open>read_fasta\<close>), and any bytes \<open>xs\<close> of
  a segment (no header prefix among them). The loop of \<^verbatim>\<open>scan_seqN\<close>, started with
  \<open>p = 0\<close> and \<open>n = 0\<close>, runs over \<open>xs\<close> without leaving the buffers, and at that point
  \<open>p\<close> is the number of symbols read (newlines apart) and \<open>scan_seqN\<close> goes on from
  there on whatever follows. The run length \<open>n\<close> is between 0 and \<open>p\<close>; for each of
  the last \<open>min n period\<close> positions \<open>i\<close> the slot \<open>i mod period\<close> of the ring holds the
  symbol read at position \<open>i\<close>; none of the last \<open>n\<close> symbols is the break symbol
  \<^verbatim>\<open>N\<close>, and each of them, from the period-th on, equals the symbol a period before
  it. So a read of the comparison phase (\<open>n\<close> at least the period) returns the symbol
  read a period before \<open>p\<close>, and the unit \<^verbatim>\<open>print_entryN\<close> copies for a record is made
  of the first period symbols of the current run (the last \<open>n\<close> symbols). Nothing the
  buffers held at the start reaches the output: from any other well-formed state of
  the same configuration the loop reaches the same \<open>n\<close> and has printed the same
  lines, and a whole scan stops at the same place with the same lines printed.
\<close>

theorem buffer_freshness:
  assumes wf: "wf_state st0" and th: "ring_size (last_bases st0) < length_s st0"
    and xs: "CHR ''>'' \<notin> set xs"
  shows "\<exists>st n out.
      scan_prefix xs st0 0 0 = Some (st, int (length (symbols xs)), n, out)
    \<and> scan_seqN (xs @ fp) st0 0 0 =
        after_printing out (scan_seqN fp st (int (length (symbols xs))) n)
    \<and> wf_state st \<and> same_config st st0
    \<and> 0 \<le> n \<and> nat n \<le> length (symbols xs)
    \<and> (\<forall>i. length (symbols xs) - min (nat n) (nat (ring_size (last_bases st))) \<le> i
          \<and> i < length (symbols xs) \<longrightarrow>
          elements (last_bases st) ! (i mod nat (ring_size (last_bases st))) = symbols xs ! i)
    \<and> (\<forall>i. length (symbols xs) - nat n \<le> i \<and> i < length (symbols xs) \<longrightarrow>
          symbols xs ! i \<noteq> CHR ''N'')
    \<and> (\<forall>i. length (symbols xs) - nat n + nat (ring_size (last_bases st)) \<le> i
          \<and> i < length (symbols xs) \<longrightarrow>
          symbols xs ! i = symbols xs ! (i - nat (ring_size (last_bases st))))
    \<and> (ring_size (last_bases st) \<le> n \<longrightarrow>
          nat (ring_size (last_bases st)) \<le> length (symbols xs)
        \<and> read_ring (last_bases st) (int (length (symbols xs))) =
            Some (char_to_int
              (symbols xs ! (length (symbols xs) - nat (ring_size (last_bases st))))))
    \<and> print_entryN st (int (length (symbols xs))) n =
        (if length_s st \<le> n
         then Some (st\<lparr>unit_buffer :=
                       take (nat (ring_size (last_bases st)))
                         (drop (length (symbols xs) - nat n) (symbols xs)) @ [CHR 0x00]\<rparr>,
                    [print_entry (chr st) (int (length (symbols xs))) n
                       (take (nat (ring_size (last_bases st)))
                          (drop (length (symbols xs) - nat n) (symbols xs)) @ [CHR 0x00])])
         else Some (st, []))
    \<and> (wf_state st1 \<and> same_config st1 st0 \<longrightarrow>
          (\<exists>st'. scan_prefix xs st1 0 0 = Some (st', int (length (symbols xs)), n, out))
        \<and> (\<exists>fp' st' st1' out'.
              scan_seqN fp st0 0 0 = Some (fp', st', out')
            \<and> scan_seqN fp st1 0 0 = Some (fp', st1', out')))"
proof -
  let ?pre = "symbols xs"
  have sc0: "same_config st0 st0"
    by (rule same_config_refl)
  have fr0: "fresh [] st0 0"
    by (rule fresh_init)
  from scan_prefix_fresh2 [OF th wf wf sc0 sc0 fr0 fr0, of xs, simplified]
  obtain st n out where
    sp: "scan_prefix xs st0 0 0 = Some (st, int (length ?pre), n, out)"
    and wf': "wf_state st" and sc: "same_config st st0" and fr: "fresh ?pre st n"
    by (elim exE conjE) (rule that)
  let ?r = "ring_size (last_bases st)"
  have th': "?r < length_s st"
    using same_config_threshold [OF sc th] .
  have g1: "scan_seqN (xs @ fp) st0 0 0 = after_printing out (scan_seqN fp st (int (length ?pre)) n)"
    using scan_seqN_prefix [OF xs, of fp st0 0 0] sp by simp
  from fr have g2: "0 \<le> n" and g3: "nat n \<le> length ?pre"
    and g4: "\<forall>i. length ?pre - min (nat n) (nat ?r) \<le> i \<and> i < length ?pre \<longrightarrow>
          elements (last_bases st) ! (i mod nat ?r) = ?pre ! i"
    and g5: "\<forall>i. length ?pre - nat n \<le> i \<and> i < length ?pre \<longrightarrow> ?pre ! i \<noteq> CHR ''N''"
    and g6: "\<forall>i. length ?pre - nat n + nat ?r \<le> i \<and> i < length ?pre \<longrightarrow>
          ?pre ! i = ?pre ! (i - nat ?r)"
    by (simp_all add: fresh_def Let_def)
  have g7: "?r \<le> n \<longrightarrow>
          nat ?r \<le> length ?pre
        \<and> read_ring (last_bases st) (int (length ?pre)) =
            Some (char_to_int (?pre ! (length ?pre - nat ?r)))"
    using fresh_read(1,3) [OF wf' fr] by simp
  note g8 = print_entryN_fresh [OF wf' fr th']
  have g9: "wf_state st1 \<and> same_config st1 st0 \<longrightarrow>
          (\<exists>st'. scan_prefix xs st1 0 0 = Some (st', int (length ?pre), n, out))
        \<and> (\<exists>fp' st' st1' out'.
              scan_seqN fp st0 0 0 = Some (fp', st', out')
            \<and> scan_seqN fp st1 0 0 = Some (fp', st1', out'))"
  proof
    assume a: "wf_state st1 \<and> same_config st1 st0"
    then have wf1: "wf_state st1" and sc1: "same_config st1 st0"
      by simp_all
    have fr1: "fresh [] st1 0"
      by (rule fresh_init)
    from scan_prefix_fresh2 [OF th wf1 wf sc1 sc0 fr1 fr0, of xs, simplified]
    obtain st1' st2' n' out' where
      a1: "scan_prefix xs st1 0 0 = Some (st1', int (length ?pre), n', out')"
      and a2: "scan_prefix xs st0 0 0 = Some (st2', int (length ?pre), n', out')"
      and w1: "wf_state st1'" and c1: "same_config st1' st0"
      and f1: "fresh ?pre st1' n'"
      by (elim exE conjE) (rule that)
    from a2 sp have e: "st2' = st" "n' = n" "out' = out"
      by simp_all
    from a1 e have h1: "\<exists>st'. scan_prefix xs st1 0 0 = Some (st', int (length ?pre), n, out)"
      by simp
    from scan_seqN_fresh2 [OF th wf wf1 sc0 sc1 fr0 fr1, of fp]
    have h2: "\<exists>fp' st' st1' out'.
              scan_seqN fp st0 0 0 = Some (fp', st', out')
            \<and> scan_seqN fp st1 0 0 = Some (fp', st1', out')"
      by simp
    from h1 h2 show "(\<exists>st'. scan_prefix xs st1 0 0 = Some (st', int (length ?pre), n, out))
        \<and> (\<exists>fp' st' st1' out'.
              scan_seqN fp st0 0 0 = Some (fp', st', out')
            \<and> scan_seqN fp st1 0 0 = Some (fp', st1', out'))"
      by (rule conjI)
  qed
  from sp g1 wf' sc g2 g3 g4 g5 g6 g7 g8 g9 show ?thesis
    by (intro exI conjI)
qed


theorem buffer_freshness_witness:
  "wf_state (example_state 2 Invalid_repeat2 ''??'' 4)
   \<and> ring_size (last_bases (example_state 2 Invalid_repeat2 ''??'' 4))
       < length_s (example_state 2 Invalid_repeat2 ''??'' 4)
   \<and> CHR ''>'' \<notin> set [CHR ''G'', CHR ''G'', CHR ''N'', CHR 0x0A, CHR ''A'', CHR ''T'', CHR ''A'', CHR ''T'', CHR ''A'', CHR ''T'']
   \<and> scan_prefix [CHR ''G'', CHR ''G'', CHR ''N'', CHR 0x0A, CHR ''A'', CHR ''T'', CHR ''A'', CHR ''T'', CHR ''A'', CHR ''T''] (example_state 2 Invalid_repeat2 ''??'' 4) 0 0 =
       Some (example_state 2 Invalid_repeat2 ''TA'' 4, 9, 6, [])
   \<and> scan_seqN ([CHR ''G'', CHR ''G'', CHR ''N'', CHR 0x0A, CHR ''A'', CHR ''T'', CHR ''A'', CHR ''T'', CHR ''A'', CHR ''T''] @ ''C'') (example_state 2 Invalid_repeat2 ''??'' 4) 0 0 =
       after_printing [] (scan_seqN ''C'' (example_state 2 Invalid_repeat2 ''TA'' 4) 9 6)
   \<and> elements (last_bases (example_state 2 Invalid_repeat2 ''TA'' 4)) ! 1 = ''GGNATATAT'' ! 7
   \<and> elements (last_bases (example_state 2 Invalid_repeat2 ''TA'' 4)) ! 0 = ''GGNATATAT'' ! 8
   \<and> ''GGNATATAT'' ! 3 \<noteq> CHR ''N''
   \<and> ''GGNATATAT'' ! 8 = ''GGNATATAT'' ! 6
   \<and> read_ring (last_bases (example_state 2 Invalid_repeat2 ''TA'' 4)) 9 = Some 65
   \<and> print_entryN (example_state 2 Invalid_repeat2 ''TA'' 4) 9 6 =
       Some ((example_state 2 Invalid_repeat2 ''TA'' 4)\<lparr>unit_buffer := ''AT'' @ [CHR 0x00]\<rparr>,
             [Entry ''chr1'' 3 9 ''AT''])
   \<and> map_option (fst \<circ> snd \<circ> snd)
         (scan_prefix [CHR ''G'', CHR ''G'', CHR ''N'', CHR 0x0A, CHR ''A'', CHR ''T'', CHR ''A'', CHR ''T'', CHR ''A'', CHR ''T''] (example_state 2 Invalid_repeat2 ''CG'' 4) 0 0) = Some 6
   \<and> map_option fst (scan_seqN [CHR ''G'', CHR ''G'', CHR ''N'', CHR 0x0A, CHR ''A'', CHR ''T'', CHR ''A'', CHR ''T'', CHR ''A'', CHR ''T''] (example_state 2 Invalid_repeat2 ''CG'' 4) 0 0) = Some []
   \<and> map_option (snd \<circ> snd) (scan_seqN [CHR ''G'', CHR ''G'', CHR ''N'', CHR 0x0A, CHR ''A'', CHR ''T'', CHR ''A'', CHR ''T'', CHR ''A'', CHR ''T''] (example_state 2 Invalid_repeat2 ''CG'' 4) 0 0) =
       Some [Entry ''chr1'' 3 9 ''AT'']"
proof -
  let ?st0 = "example_state 2 Invalid_repeat2 ''??'' 4"
  let ?st1 = "example_state 2 Invalid_repeat2 ''CG'' 4"
  let ?S = "example_state 2 Invalid_repeat2 ''TA'' 4"
  let ?xs = "[CHR ''G'', CHR ''G'', CHR ''N'', CHR 0x0A, CHR ''A'', CHR ''T'', CHR ''A'', CHR ''T'', CHR ''A'', CHR ''T'']"
  have wf: "wf_state ?st0" and th: "ring_size (last_bases ?st0) < length_s ?st0"
    and nx: "CHR ''>'' \<notin> set ?xs"
    and s1: "wf_state ?st1 \<and> same_config ?st1 ?st0"
    by code_simp+
  have sy: "symbols ?xs = ''GGNATATAT''"
    by code_simp
  have ln: "length ''GGNATATAT'' = 9"
    by simp
  have sp0: "scan_prefix ?xs ?st0 0 0 = Some (?S, 9, 6, [])"
    by code_simp
  have r: "ring_size (last_bases ?S) = 2" and ls: "length_s ?S = 4" and ch: "chr ?S = ''chr1'' @ [CHR 0x00]"
    by code_simp+
  have full0: "scan_seqN ?xs ?st0 0 0 =
      Some ([], ?S\<lparr>unit_buffer := ''AT'' @ [CHR 0x00]\<rparr>, [Entry ''chr1'' 3 9 ''AT''])"
    by code_simp
  from buffer_freshness [where ?st0.0 = ?st0 and xs = ?xs and fp = "''C''" and ?st1.0 = ?st1,
      OF wf th nx, unfolded sy ln]
  obtain st n out where
    a1: "scan_prefix ?xs ?st0 0 0 = Some (st, int 9, n, out)"
    and a2: "scan_seqN (?xs @ ''C'') ?st0 0 0 = after_printing out (scan_seqN ''C'' st (int 9) n)"
    and a3: "\<forall>i. 9 - min (nat n) (nat (ring_size (last_bases st))) \<le> i \<and> i < 9 \<longrightarrow>
          elements (last_bases st) ! (i mod nat (ring_size (last_bases st))) = ''GGNATATAT'' ! i"
    and a4: "\<forall>i. 9 - nat n \<le> i \<and> i < 9 \<longrightarrow> ''GGNATATAT'' ! i \<noteq> CHR ''N''"
    and a5: "\<forall>i. 9 - nat n + nat (ring_size (last_bases st)) \<le> i \<and> i < 9 \<longrightarrow>
          ''GGNATATAT'' ! i = ''GGNATATAT'' ! (i - nat (ring_size (last_bases st)))"
    and a6: "ring_size (last_bases st) \<le> n \<longrightarrow>
          nat (ring_size (last_bases st)) \<le> 9
        \<and> read_ring (last_bases st) (int 9) =
            Some (char_to_int (''GGNATATAT'' ! (9 - nat (ring_size (last_bases st)))))"
    and a7: "print_entryN st (int 9) n =
        (if length_s st \<le> n
         then Some (st\<lparr>unit_buffer :=
                       take (nat (ring_size (last_bases st)))
                         (drop (9 - nat n) ''GGNATATAT'') @ [CHR 0x00]\<rparr>,
                    [print_entry (chr st) (int 9) n
                       (take (nat (ring_size (last_bases st)))
                          (drop (9 - nat n) ''GGNATATAT'') @ [CHR 0x00])])
         else Some (st, []))"
    and a8: "wf_state ?st1 \<and> same_config ?st1 ?st0 \<longrightarrow>
          (\<exists>st'. scan_prefix ?xs ?st1 0 0 = Some (st', int 9, n, out))
        \<and> (\<exists>fp' st' st1' out'.
              scan_seqN ''C'' ?st0 0 0 = Some (fp', st', out')
            \<and> scan_seqN ''C'' ?st1 0 0 = Some (fp', st1', out'))"
    by (elim exE conjE) (rule that)
  from a1 sp0 have e: "st = ?S" "n = 6" "out = []"
    by simp_all
  from a2 have b2: "scan_seqN (?xs @ ''C'') ?st0 0 0 = after_printing [] (scan_seqN ''C'' ?S 9 6)"
    unfolding e by simp
  from a3 [unfolded e r, rule_format, of 7]
  have b3: "elements (last_bases ?S) ! 1 = ''GGNATATAT'' ! 7"
    by simp
  from a3 [unfolded e r, rule_format, of 8]
  have b4: "elements (last_bases ?S) ! 0 = ''GGNATATAT'' ! 8"
    by simp
  from a4 [unfolded e, rule_format, of 3]
  have b5: "''GGNATATAT'' ! 3 \<noteq> CHR ''N''"
    by simp
  from a5 [unfolded e r, rule_format, of 8]
  have b6: "''GGNATATAT'' ! 8 = ''GGNATATAT'' ! 6"
    by simp
  have v: "char_to_int (''GGNATATAT'' ! 7) = 65"
    by code_simp
  from a6 [unfolded e r] v
  have b7: "read_ring (last_bases ?S) 9 = Some 65"
    by simp
  have u: "print_entry (''chr1'' @ [CHR 0x00]) 9 6 (''AT'' @ [CHR 0x00]) = Entry ''chr1'' 3 9 ''AT''"
    by code_simp
  from a7 [unfolded e r ls ch] u
  have b8: "print_entryN ?S 9 6 =
       Some (?S\<lparr>unit_buffer := ''AT'' @ [CHR 0x00]\<rparr>, [Entry ''chr1'' 3 9 ''AT''])"
    by simp
  from a8 [unfolded e, THEN mp, OF s1, THEN conjunct1]
  obtain st' where "scan_prefix ?xs ?st1 0 0 = Some (st', int 9, 6, [])"
    by (elim exE)
  then have b9: "map_option (fst \<circ> snd \<circ> snd) (scan_prefix ?xs ?st1 0 0) = Some 6"
    by simp
  from buffer_freshness [where ?st0.0 = ?st0 and xs = ?xs and fp = ?xs and ?st1.0 = ?st1,
      OF wf th nx]
  obtain st2 n2 out2 where
    c8: "wf_state ?st1 \<and> same_config ?st1 ?st0 \<longrightarrow>
          (\<exists>st'. scan_prefix ?xs ?st1 0 0 = Some (st', int (length (symbols ?xs)), n2, out2))
        \<and> (\<exists>fp' st' st1' out'.
              scan_seqN ?xs ?st0 0 0 = Some (fp', st', out')
            \<and> scan_seqN ?xs ?st1 0 0 = Some (fp', st1', out'))"
    by (elim exE conjE) (rule that)
  from c8 [THEN mp, OF s1, THEN conjunct2]
  obtain fp' st3 st4 out' where
    c1: "scan_seqN ?xs ?st0 0 0 = Some (fp', st3, out')"
    and c2: "scan_seqN ?xs ?st1 0 0 = Some (fp', st4, out')"
    by (elim exE conjE) (rule that)
  from c1 full0 have f: "fp' = []" "out' = [Entry ''chr1'' 3 9 ''AT'']"
    by simp_all
  from c2 have b10: "map_option fst (scan_seqN ?xs ?st1 0 0) = Some []"
    and b11: "map_option (snd \<circ> snd) (scan_seqN ?xs ?st1 0 0) = Some [Entry ''chr1'' 3 9 ''AT'']"
    unfolding f by simp_all
  from wf th nx sp0 b2 b3 b4 b5 b6 b7 b8 b9 b10 b11 show ?thesis
    by (intro conjI)
qed

end
